theory Spec2Isabelle
  imports
    Complex_Main
    "HOL-Library.Word"
    "HOL-Library.Log_Nat"
    "HOL-Library.Char_ord"
    "HOL-Library.List_Lexorder"
begin

section \<open>Errors raised by the Python code\<close>

text \<open>
  The exceptions of Python that the code can raise, \<open>URLError\<close> for a failed request, and
  \<open>ProgressValueError\<close> for the exception with which \<^verbatim>\<open>progress_bar.progress\<close> refuses a
  value outside \<open>[0.0, 1.0]\<close>.
\<close>

datatype py_error =
    KeyError
  | TypeError
  | IndexError
  | ZeroDivisionError
  | OverflowError
  | ProgressValueError
  | URLError

section \<open>Tables\<close>

text \<open>
  One row of the annotation table read by \<^verbatim>\<open>load_metadata\<close> has the columns
  \<^verbatim>\<open>frame, xmin, ymin, xmax, ymax, label\<close>. A row of a box table (the annotation table
  of one frame with the frame column dropped, or the detector's output) has the last five.
\<close>

record box =
  xmin :: int
  ymin :: int
  xmax :: int
  ymax :: int
  label :: string

record annotation = box +
  frame :: string

text \<open>
  A data frame of integer cells: the column names in order, and the rows in order, each
  with its index entry. The summary table is such a frame, indexed by frame identifier.
\<close>

record dataframe =
  columns :: "string list"
  rows :: "(string \<times> int list) list"

fun index_of :: "'a \<Rightarrow> 'a list \<Rightarrow> nat option" where
  "index_of x [] = None"
| "index_of x (y # ys) =
     (if x = y then Some 0 else map_option Suc (index_of x ys))"

text \<open>
  \<^verbatim>\<open>df[label]\<close>: the column as a list of values in row order, KeyError without it. Every
  row of a data frame has one cell per column.
\<close>

definition getitem_column :: "dataframe \<Rightarrow> string \<Rightarrow> py_error + int list" where
  "getitem_column df l =
     (case index_of l (columns df) of
        None \<Rightarrow> Inl KeyError
      | Some i \<Rightarrow> Inr (map (\<lambda>r. snd r ! i) (rows df)))"

text \<open>\<^verbatim>\<open>df.loc[f, l]\<close>: the cell of the first row indexed \<open>f\<close>, in column \<open>l\<close>.\<close>

definition cell :: "dataframe \<Rightarrow> string \<Rightarrow> string \<Rightarrow> int option" where
  "cell df f l =
     (case map_of (rows df) f of
        None \<Rightarrow> None
      | Some r \<Rightarrow>
          (case index_of l (columns df) of
             None \<Rightarrow> None
           | Some i \<Rightarrow> if i < length r then Some (r ! i) else None))"

text \<open>
  A well-formed frame: no column name twice, and every row has one cell per column.
  The index of a summary table is moreover a unique key.
\<close>

definition well_formed :: "dataframe \<Rightarrow> bool" where
  "well_formed df \<longleftrightarrow>
     distinct (columns df) \<and> list_all (\<lambda>r. length (snd r) = length (columns df)) (rows df)"

definition unique_index :: "dataframe \<Rightarrow> bool" where
  "unique_index df \<longleftrightarrow> distinct (map fst (rows df))"

subsection \<open>\<^verbatim>\<open>create_summary\<close>\<close>

text \<open>
  \<^verbatim>\<open>pd.get_dummies(metadata[['frame', 'label']], columns=['label'])\<close>: the label column
  is replaced by one indicator column per distinct label, named \<^verbatim>\<open>label_<value>\<close>, the
  values in sorted order; the frame column stays, one row per annotation.
\<close>

definition get_dummies :: "(string \<times> string) list \<Rightarrow> string list \<times> (string \<times> int list) list" where
  "get_dummies fl =
     (let cats = sort (remdups (map snd fl))
      in (map (\<lambda>c. ''label_'' @ c) cats,
          map (\<lambda>(f, l). (f, map (\<lambda>c. if l = c then 1 else 0) cats)) fl))"

text \<open>
  \<^verbatim>\<open>.groupby(['frame']).sum()\<close>: one row per distinct frame, the group keys sorted, each
  cell the sum of the group's cells of that column. Pandas keeps the sums in 64 bits,
  which a count of rows does not exceed; they are integers here.
\<close>

definition add_rows :: "int list \<Rightarrow> int list \<Rightarrow> int list" where
  "add_rows xs ys = map2 (+) xs ys"

definition groupby_sum :: "string list \<times> (string \<times> int list) list \<Rightarrow> dataframe" where
  "groupby_sum t =
     (let cols = fst t; rs = snd t
      in \<lparr>columns = cols,
          rows = map (\<lambda>f. (f, foldl add_rows (replicate (length cols) 0)
                                  (map snd (filter (\<lambda>r. fst r = f) rs))))
                     (sort (remdups (map fst rs)))\<rparr>)"

definition create_summary :: "annotation list \<Rightarrow> dataframe" where
  "create_summary metadata =
     groupby_sum (get_dummies (map (\<lambda>r. (frame r, label r)) metadata))"

subsection \<open>\<^verbatim>\<open>get_selected_frames\<close>\<close>

text \<open>
  \<^verbatim>\<open>summary[np.logical_and(summary[label] >= min_elts, summary[label] <= max_elts)].index\<close>:
  two comparisons of the column give two boolean columns, \<^verbatim>\<open>logical_and\<close> joins them
  position by position, the mask keeps the rows where it is true, and the index of the
  kept rows is returned.
\<close>

definition logical_and :: "bool list \<Rightarrow> bool list \<Rightarrow> bool list" where
  "logical_and xs ys = map2 (\<and>) xs ys"

definition boolean_mask :: "dataframe \<Rightarrow> bool list \<Rightarrow> dataframe" where
  "boolean_mask df m = df\<lparr>rows := map fst (filter snd (zip (rows df) m))\<rparr>"

definition get_selected_frames ::
  "dataframe \<Rightarrow> string \<Rightarrow> int \<Rightarrow> int \<Rightarrow> py_error + string list" where
  "get_selected_frames summary l min_elts max_elts =
     (case getitem_column summary l of
        Inl e \<Rightarrow> Inl e
      | Inr col \<Rightarrow>
          Inr (map fst (rows (boolean_mask summary
                 (logical_and (map (\<lambda>v. v \<ge> min_elts) col) (map (\<lambda>v. v \<le> max_elts) col))))))"

section \<open>Numeric types of the image arrays\<close>

subsection \<open>\<^verbatim>\<open>np.float64\<close>\<close>

text \<open>
  A finite binary64 number is a rational \<open>m * 2 ^ k\<close> with \<open>\<bar>m\<bar> < 2 ^ 53\<close> and
  \<open>- 1074 \<le> k\<close>. An arithmetic operation returns the exact result rounded to the nearest
  such number, ties to the even significand. \<open>f64_exponent x\<close> is, for \<open>0 < x\<close>, the \<open>e\<close>
  with \<open>2 ^ e \<le> x < 2 ^ (e + 1)\<close>; below \<open>2 ^ - 1022\<close> the spacing stays that of the
  subnormal numbers. Overflow to infinity is left out: the image values stay within
  \<open>[0, 510]\<close> and a progress fraction is a quotient of two byte counts.
\<close>

definition round_half_even :: "rat \<Rightarrow> int" where
  "round_half_even x =
     (let n = \<lfloor>x\<rfloor>; r = x - of_int n
      in if r < 1 / 2 then n else if 1 / 2 < r then n + 1 else if even n then n else n + 1)"

definition f64_exponent :: "rat \<Rightarrow> int" where
  "f64_exponent x =
     (let d = bitlen (fst (quotient_of x)) - bitlen (snd (quotient_of x))
      in if power_int 2 d \<le> x then d else d - 1)"

definition f64_round :: "rat \<Rightarrow> rat" where
  "f64_round x =
     (if x = 0 then 0
      else let e = max (f64_exponent \<bar>x\<bar>) (- 1022); u = power_int 2 (e - 52)
           in of_int (round_half_even (x / u)) * u)"

definition f64_of_int :: "int \<Rightarrow> rat" where
  "f64_of_int n = f64_round (of_int n)"

definition f64_add :: "rat \<Rightarrow> rat \<Rightarrow> rat" where
  "f64_add x y = f64_round (x + y)"

definition f64_mul :: "rat \<Rightarrow> rat \<Rightarrow> rat" where
  "f64_mul x y = f64_round (x * y)"

text \<open>Division by a divisor that is not zero; the callers test for zero first.\<close>

definition f64_div :: "rat \<Rightarrow> rat \<Rightarrow> rat" where
  "f64_div x y = f64_round (x / y)"

subsection \<open>\<^verbatim>\<open>np.uint8\<close> and the conversions\<close>

type_synonym uint8 = "8 word"

text \<open>\<^verbatim>\<open>astype(np.float64)\<close> of a byte: every integer in \<open>[0, 255]\<close> is a binary64 number.\<close>

definition uint8_to_f64 :: "uint8 \<Rightarrow> rat" where
  "uint8_to_f64 w = of_nat (unat w)"

text \<open>
  \<^verbatim>\<open>astype(np.uint8)\<close> of a float: the fraction is dropped (truncation towards zero).
  The values converted here lie in \<open>[0, 255]\<close>.
\<close>

definition trunc_toward_zero :: "rat \<Rightarrow> int" where
  "trunc_toward_zero x = (if 0 \<le> x then \<lfloor>x\<rfloor> else \<lceil>x\<rceil>)"

definition f64_to_uint8 :: "rat \<Rightarrow> uint8" where
  "f64_to_uint8 x = word_of_int (trunc_toward_zero x)"

section \<open>Images\<close>

text \<open>
  An image of shape \<open>H \<times> W \<times> 3\<close>: a list of \<open>H\<close> rows, each a list of \<open>W\<close> pixels, each
  pixel its three channels.
\<close>

type_synonym 'a pixel = "'a \<times> 'a \<times> 'a"
type_synonym 'a image = "'a pixel list list"

definition map_pixel :: "('a \<Rightarrow> 'b) \<Rightarrow> 'a pixel \<Rightarrow> 'b pixel" where
  "map_pixel f p = (case p of (r, g, b) \<Rightarrow> (f r, f g, f b))"

definition map_image :: "('a \<Rightarrow> 'b) \<Rightarrow> 'a image \<Rightarrow> 'b image" where
  "map_image f img = map (map (map_pixel f)) img"

subsection \<open>Slices\<close>

text \<open>
  A bound of the slice \<^verbatim>\<open>[lo:hi]\<close> on an axis of length \<open>n\<close>: a negative bound counts from
  the end, and both are clipped to \<open>[0, n]\<close>. The slice selects the positions from the
  adjusted \<open>lo\<close> up to, not including, the adjusted \<open>hi\<close>; it is empty when that is not
  larger.
\<close>

definition slice_bound :: "nat \<Rightarrow> int \<Rightarrow> nat" where
  "slice_bound n i =
     (if i < 0 then (if i + int n < 0 then 0 else nat (i + int n))
      else (if int n \<le> i then n else nat i))"

definition in_slice :: "nat \<Rightarrow> int \<Rightarrow> int \<Rightarrow> nat \<Rightarrow> bool" where
  "in_slice n lo hi i \<longleftrightarrow> slice_bound n lo \<le> i \<and> i < slice_bound n hi"

text \<open>An in-place operation on the view \<^verbatim>\<open>xs[lo:hi]\<close>.\<close>

definition map_slice :: "('a \<Rightarrow> 'a) \<Rightarrow> int \<Rightarrow> int \<Rightarrow> 'a list \<Rightarrow> 'a list" where
  "map_slice f lo hi xs =
     (let s = slice_bound (length xs) lo; e = slice_bound (length xs) hi
      in take s xs @ map f (take (e - s) (drop s xs)) @ drop (max s e) xs)"

text \<open>
  An in-place operation on the view \<^verbatim>\<open>image[ymin:ymax, xmin:xmax, :]\<close>: the rows of the
  row slice, and in each of them the pixels of the column slice.
\<close>

definition map_region ::
  "('a pixel \<Rightarrow> 'a pixel) \<Rightarrow> int \<Rightarrow> int \<Rightarrow> int \<Rightarrow> int \<Rightarrow> 'a image \<Rightarrow> 'a image" where
  "map_region f y0 y1 x0 x1 img = map_slice (map_slice f x0 x1) y0 y1 img"

subsection \<open>The store of image buffers\<close>

text \<open>
  Arrays are mutable objects, so the buffers live in a store and the program holds their
  addresses. The byte images and the float images are kept apart; a new buffer takes the
  next free address.
\<close>

record heap =
  u8_bufs :: "uint8 image list"
  f64_bufs :: "rat image list"

text \<open>\<^verbatim>\<open>image.astype(np.float64)\<close>: a new float buffer holding the converted values.\<close>

definition astype_float64 :: "heap \<Rightarrow> nat \<Rightarrow> heap \<times> nat" where
  "astype_float64 h a =
     (h\<lparr>f64_bufs := f64_bufs h @ [map_image uint8_to_f64 (u8_bufs h ! a)]\<rparr>,
      length (f64_bufs h))"

text \<open>\<^verbatim>\<open>image.astype(np.uint8)\<close>: a new byte buffer holding the converted values.\<close>

definition astype_uint8 :: "heap \<Rightarrow> nat \<Rightarrow> heap \<times> nat" where
  "astype_uint8 h a =
     (h\<lparr>u8_bufs := u8_bufs h @ [map_image f64_to_uint8 (f64_bufs h ! a)]\<rparr>,
      length (u8_bufs h))"

text \<open>\<^verbatim>\<open>image[ymin:ymax,xmin:xmax,:] += color\<close>, on the float buffer at \<open>a\<close>.\<close>

definition add_color :: "int pixel \<Rightarrow> rat pixel \<Rightarrow> rat pixel" where
  "add_color c p =
     (case c of (cr, cg, cb) \<Rightarrow> case p of (r, g, b) \<Rightarrow>
        (f64_add r (of_int cr), f64_add g (of_int cg), f64_add b (of_int cb)))"

definition iadd_region :: "heap \<Rightarrow> nat \<Rightarrow> int \<Rightarrow> int \<Rightarrow> int \<Rightarrow> int \<Rightarrow> int pixel \<Rightarrow> heap" where
  "iadd_region h a y0 y1 x0 x1 c =
     h\<lparr>f64_bufs := (f64_bufs h)[a := map_region (add_color c) y0 y1 x0 x1 (f64_bufs h ! a)]\<rparr>"

text \<open>\<^verbatim>\<open>image[ymin:ymax,xmin:xmax,:] /= 2\<close>, on the float buffer at \<open>a\<close>.\<close>

definition idiv_region :: "heap \<Rightarrow> nat \<Rightarrow> int \<Rightarrow> int \<Rightarrow> int \<Rightarrow> int \<Rightarrow> rat \<Rightarrow> heap" where
  "idiv_region h a y0 y1 x0 x1 d =
     h\<lparr>f64_bufs :=
         (f64_bufs h)[a := map_region (map_pixel (\<lambda>v. f64_div v d)) y0 y1 x0 x1 (f64_bufs h ! a)]\<rparr>"

subsection \<open>\<^verbatim>\<open>add_boxes\<close>\<close>

definition LABEL_COLORS :: "string \<rightharpoonup> int pixel" where
  "LABEL_COLORS = map_of
     [(''car'', (255, 0, 0)),
      (''pedestrian'', (0, 255, 0)),
      (''truck'', (0, 0, 255)),
      (''trafficLight'', (255, 255, 0)),
      (''biker'', (255, 0, 255))]"

text \<open>
  The loop over \<^verbatim>\<open>boxes.iterrows()\<close>, on the float buffer at \<open>a\<close>. \<^verbatim>\<open>LABEL_COLORS[label]\<close>
  raises KeyError for a label that is no key, and the loop ends there.
\<close>

fun add_boxes_loop :: "heap \<Rightarrow> nat \<Rightarrow> box list \<Rightarrow> heap \<times> (py_error + unit)" where
  "add_boxes_loop h a [] = (h, Inr ())"
| "add_boxes_loop h a (b # bs) =
     (case LABEL_COLORS (label b) of
        None \<Rightarrow> (h, Inl KeyError)
      | Some c \<Rightarrow>
          (let h1 = iadd_region h a (ymin b) (ymax b) (xmin b) (xmax b) c;
               h2 = idiv_region h1 a (ymin b) (ymax b) (xmin b) (xmax b) 2
           in add_boxes_loop h2 a bs))"

text \<open>
  \<^verbatim>\<open>add_boxes(image, boxes)\<close> for the byte image at address \<open>a\<close>, the address of an
  existing byte buffer. It returns the store it leaves and either the error raised or the
  address of the image returned.
\<close>

definition add_boxes :: "heap \<Rightarrow> nat \<Rightarrow> box list \<Rightarrow> heap \<times> (py_error + nat)" where
  "add_boxes h a boxes =
     (let (h1, fa) = astype_float64 h a
      in case add_boxes_loop h1 fa boxes of
           (h2, Inl e) \<Rightarrow> (h2, Inl e)
         | (h2, Inr _) \<Rightarrow> (let (h3, r) = astype_uint8 h2 fa in (h3, Inr r)))"

text \<open>The image that \<^verbatim>\<open>add_boxes\<close> returns, read from the store it leaves.\<close>

definition add_boxes_image :: "heap \<Rightarrow> nat \<Rightarrow> box list \<Rightarrow> py_error + uint8 image" where
  "add_boxes_image h a boxes =
     (case add_boxes h a boxes of
        (h', Inl e) \<Rightarrow> Inl e
      | (h', Inr r) \<Rightarrow> Inr (u8_bufs h' ! r))"

text \<open>Box \<open>b\<close> covers the pixel at row \<open>y\<close>, column \<open>x\<close> of the image \<open>img\<close>.\<close>

definition covers :: "'a image \<Rightarrow> box \<Rightarrow> nat \<Rightarrow> nat \<Rightarrow> bool" where
  "covers img b y x \<longleftrightarrow>
     in_slice (length img) (ymin b) (ymax b) y \<and> in_slice (length (img ! y)) (xmin b) (xmax b) x"


subsection \<open>The loop of \<^verbatim>\<open>add_boxes\<close> as a function of the float image\<close>

text \<open>What the two in-place operations of one loop iteration do to a pixel of the region.\<close>

definition blend :: "int pixel \<Rightarrow> rat pixel \<Rightarrow> rat pixel" where
  "blend c p = map_pixel (\<lambda>v. f64_div v 2) (add_color c p)"

text \<open>The contents of the float buffer after the loop, and how the loop ended.\<close>

fun blend_boxes :: "rat image \<Rightarrow> box list \<Rightarrow> rat image \<times> (py_error + unit)" where
  "blend_boxes img [] = (img, Inr ())"
| "blend_boxes img (b # bs) =
     (case LABEL_COLORS (label b) of
        None \<Rightarrow> (img, Inl KeyError)
      | Some c \<Rightarrow>
          blend_boxes
            (map_region (map_pixel (\<lambda>v. f64_div v 2)) (ymin b) (ymax b) (xmin b) (xmax b)
               (map_region (add_color c) (ymin b) (ymax b) (xmin b) (xmax b) img))
            bs)"

subsection \<open>The blend as the specification words it\<close>

text \<open>
  \<open>(pixel + color) / 2\<close> on exact rationals, where nothing overflows, then the fraction
  dropped to return to the byte depth.
\<close>

definition spec_half_blend :: "int \<Rightarrow> uint8 \<Rightarrow> uint8" where
  "spec_half_blend c v = word_of_int \<lfloor>(rat_of_int (uint v) + rat_of_int c) / 2\<rfloor>"

definition spec_blend_pixel :: "int pixel \<Rightarrow> uint8 pixel \<Rightarrow> uint8 pixel" where
  "spec_blend_pixel c p =
     (case c of (cr, cg, cb) \<Rightarrow> case p of (r, g, b) \<Rightarrow>
        (spec_half_blend cr r, spec_half_blend cg g, spec_half_blend cb b))"

text \<open>
  Two blends, towards the color \<open>C1\<close> and then, on the blended value, towards the color
  \<open>C2\<close>: \<open>((O + C1) / 2 + C2) / 2\<close>, the fraction dropped once at the end.
\<close>

definition spec_half_blend_then :: "int \<Rightarrow> int \<Rightarrow> uint8 \<Rightarrow> uint8" where
  "spec_half_blend_then c1 c2 v =
     word_of_int \<lfloor>((rat_of_int (uint v) + rat_of_int c1) / 2 + rat_of_int c2) / 2\<rfloor>"

definition spec_blend_pixel_then :: "int pixel \<Rightarrow> int pixel \<Rightarrow> uint8 pixel \<Rightarrow> uint8 pixel" where
  "spec_blend_pixel_then c1 c2 p =
     (case c1 of (cr1, cg1, cb1) \<Rightarrow> case c2 of (cr2, cg2, cb2) \<Rightarrow> case p of (r, g, b) \<Rightarrow>
        (spec_half_blend_then cr1 cr2 r, spec_half_blend_then cg1 cg2 g,
         spec_half_blend_then cb1 cb2 b))"

text \<open>
  Two blends towards the same color, the second on the blended value:
  \<open>((O + C) / 2 + C) / 2\<close>, the fraction dropped once at the end.
\<close>

definition spec_half_blend_twice :: "int \<Rightarrow> uint8 \<Rightarrow> uint8" where
  "spec_half_blend_twice c v =
     word_of_int \<lfloor>((rat_of_int (uint v) + rat_of_int c) / 2 + rat_of_int c) / 2\<rfloor>"

definition spec_blend_pixel_twice :: "int pixel \<Rightarrow> uint8 pixel \<Rightarrow> uint8 pixel" where
  "spec_blend_pixel_twice c p =
     (case c of (cr, cg, cb) \<Rightarrow> case p of (r, g, b) \<Rightarrow>
        (spec_half_blend_twice cr r, spec_half_blend_twice cg g, spec_half_blend_twice cb b))"

definition same_shape :: "'a image \<Rightarrow> 'b image \<Rightarrow> bool" where
  "same_shape a b \<longleftrightarrow> map length a = map length b"

text \<open>A color whose three channels are byte values, as every entry of the color table is.\<close>

definition byte_color :: "int pixel \<Rightarrow> bool" where
  "byte_color c \<longleftrightarrow>
     (case c of (r, g, b) \<Rightarrow> 0 \<le> r \<and> r \<le> 255 \<and> 0 \<le> g \<and> g \<le> 255 \<and> 0 \<le> b \<and> b \<le> 255)"

section \<open>The world outside the program\<close>

text \<open>
  What the program does to the outside is recorded as a list of events in the order they
  happen: what it prints, the widgets and messages it hands to the user interface, and
  the requests it sends over the network.
\<close>

datatype event =
    Stdout
  | Spinner
  | ProgressBar
  | Progress rat
  | UrlOpen
  | ReadCsv
  | SidebarTitle
  | Selectbox
  | Slider
  | Checkbox
  | SidebarMarkdown
  | SidebarChart
  | StError
  | StWarning
  | StWrite
  | StImage nat
  | FetchImage string
  | YoloV3

text \<open>
  The state the program changes: the contents of the file \<^verbatim>\<open>yolov3.weights\<close> (\<open>None\<close> when
  there is no such file), the store of image buffers, and the events so far.
\<close>

record world =
  weights_file :: "uint8 list option"
  store :: heap
  trace :: "event list"

text \<open>
  The answer of the weights server: the \<^verbatim>\<open>Content-Length\<close> header, when there is one, as
  the integer it denotes, and the bytes of the body.
\<close>

record response =
  content_length :: "int option"
  body :: "uint8 list"

text \<open>
  What the program reads and does not control: the MD5 function of \<^verbatim>\<open>hashlib\<close>, the answers
  of the three remote resources, the detector, and the values the user has set on the
  widgets.
\<close>

record env =
  md5_hexdigest :: "uint8 list \<Rightarrow> string"
  weights_remote :: "py_error + response"
  labels_remote :: "py_error + annotation list"
  image_remote :: "string \<Rightarrow> py_error + uint8 image"
  yolo_v3 :: "uint8 image \<Rightarrow> rat \<Rightarrow> rat \<Rightarrow> py_error + box list"
  ui_label :: string
  ui_range :: "int \<times> int"
  ui_frame_index :: nat
  ui_run_yolo :: bool
  ui_confidence :: rat
  ui_overlap :: rat

definition emit :: "event \<Rightarrow> world \<Rightarrow> world" where
  "emit e w = w\<lparr>trace := trace w @ [e]\<rparr>"

text \<open>The events that happened between the state \<open>w\<close> and the later state \<open>w'\<close>.\<close>

definition new_events :: "world \<Rightarrow> world \<Rightarrow> event list" where
  "new_events w w' = drop (length (trace w)) (trace w')"

fun progress_updates :: "event list \<Rightarrow> rat list" where
  "progress_updates [] = []"
| "progress_updates (Progress v # es) = v # progress_updates es"
| "progress_updates (e # es) = progress_updates es"

section \<open>The weights file\<close>

definition WEIGTHS_MD5 :: string where
  "WEIGTHS_MD5 = ''c84e5b99d0e52cd466ae710cadf6d84c''"

text \<open>
  \<^verbatim>\<open>check_weights_hash\<close>: false without the file; else the file is read whole, its digest
  printed, and the result is whether the hex digest is the known one.
\<close>

definition check_weights_hash :: "env \<Rightarrow> world \<Rightarrow> world \<times> bool" where
  "check_weights_hash env w =
     (case weights_file w of
        None \<Rightarrow> (w, False)
      | Some content \<Rightarrow> (emit Stdout w, md5_hexdigest env content = WEIGTHS_MD5))"

text \<open>
  \<^verbatim>\<open>progress = 1.0 * counter / length\<close> and the value handed to the progress bar,
  \<^verbatim>\<open>progress if progress <= 1.0 else 1.0\<close>, for two integers that convert to floats and a
  length that is not 0.
\<close>

definition progress_fraction :: "int \<Rightarrow> nat \<Rightarrow> rat" where
  "progress_fraction len counter =
     (let progress = f64_div (f64_mul 1 (f64_of_int (int counter))) (f64_of_int len)
      in if progress \<le> 1 then progress else 1)"

text \<open>
  Python converts an integer to a float by rounding it, and raises OverflowError when the
  rounded value is beyond the largest float, \<open>2 ^ 1024 - 2 ^ 971\<close>: that is from
  \<open>2 ^ 1024 - 2 ^ 970\<close> on, in absolute value.
\<close>

definition f64_overflow_threshold :: int where
  "f64_overflow_threshold = 2 ^ 1024 - 2 ^ 970"

definition int_too_large :: "int \<Rightarrow> bool" where
  "int_too_large n \<longleftrightarrow> f64_overflow_threshold \<le> \<bar>n\<bar>"

text \<open>
  The \<^verbatim>\<open>while True\<close> loop of \<^verbatim>\<open>download_weights\<close>. \<open>rest\<close> is the part of the body not yet
  read; \<^verbatim>\<open>response.read(8192)\<close> returns its next 8192 bytes, fewer only at the end (the
  buffered reader of \<^verbatim>\<open>http.client\<close> waits for the full amount), none when the body is
  exhausted. \<^verbatim>\<open>1.0 * counter\<close> converts the counter and the division converts the declared
  length, either with OverflowError when the integer is too large; the division raises
  ZeroDivisionError when the declared length is 0. \<^verbatim>\<open>progress_bar.progress\<close> refuses a
  value below 0 (one above 1 never reaches it). Only then is the chunk appended to the
  file, which is open: an error leaves the file with the chunks written before.
\<close>

function download_loop :: "int \<Rightarrow> uint8 list \<Rightarrow> nat \<Rightarrow> world \<Rightarrow> world \<times> (py_error + unit)" where
  "download_loop len rest counter w =
     (let data = take 8192 rest
      in if data = [] then (w, Inr ())
         else
           (let counter' = counter + length data
            in if int_too_large (int counter') then (w, Inl OverflowError)
               else if int_too_large len then (w, Inl OverflowError)
               else if len = 0 then (w, Inl ZeroDivisionError)
               else if progress_fraction len counter' < 0 then (w, Inl ProgressValueError)
               else
                 (let w1 = emit (Progress (progress_fraction len counter')) w;
                      w2 = w1\<lparr>weights_file :=
                                Some (case weights_file w1 of None \<Rightarrow> data | Some c \<Rightarrow> c @ data)\<rparr>
                  in download_loop len (drop 8192 rest) counter' w2)))"
  by pat_completeness auto
termination
  by (relation "measure (\<lambda>(len, rest, counter, w). length rest)") auto

text \<open>
  \<^verbatim>\<open>download_weights\<close>: nothing more when the check passes. Else the spinner and the
  progress bar are shown, the file is opened for writing (which empties or creates it),
  the URL is opened, the declared length is read (\<^verbatim>\<open>int(None)\<close> raises TypeError without
  the header) and printed, and the loop runs.
\<close>

definition download_weights :: "env \<Rightarrow> world \<Rightarrow> world \<times> (py_error + unit)" where
  "download_weights env w =
     (let (w1, ok) = check_weights_hash env w
      in if ok then (w1, Inr ())
         else
           (let w2 = emit ProgressBar (emit Spinner w1);
                w3 = w2\<lparr>weights_file := Some []\<rparr>;
                w4 = emit UrlOpen w3
            in case weights_remote env of
                 Inl e \<Rightarrow> (w4, Inl e)
               | Inr resp \<Rightarrow>
                   (case content_length resp of
                      None \<Rightarrow> (w4, Inl TypeError)
                    | Some len \<Rightarrow> download_loop len (body resp) 0 (emit Stdout w4))))"

text \<open>The values the loop hands to the progress bar, as a function of what it reads.\<close>

function progress_reports :: "int \<Rightarrow> uint8 list \<Rightarrow> nat \<Rightarrow> rat list" where
  "progress_reports len rest counter =
     (if rest = [] then []
      else progress_fraction len (counter + length (take 8192 rest))
           # progress_reports len (drop 8192 rest) (counter + length (take 8192 rest)))"
  by pat_completeness auto
termination
  by (relation "measure (\<lambda>(len, rest, counter). length rest)") auto

declare download_loop.simps [simp del] progress_reports.simps [simp del]

section \<open>\<^verbatim>\<open>main\<close>\<close>

definition DATA_URL_ROOT :: string where
  "DATA_URL_ROOT = ''https://streamlit-self-driving.s3-us-west-2.amazonaws.com/''"

text \<open>\<^verbatim>\<open>os.path.join(a, b)\<close> on two components.\<close>

definition path_join :: "string \<Rightarrow> string \<Rightarrow> string" where
  "path_join a b =
     (if b \<noteq> [] \<and> hd b = CHR ''/'' then b
      else if a = [] \<or> last a = CHR ''/'' then a @ b
      else a @ ''/'' @ b)"

text \<open>
  \<^verbatim>\<open>load_image(url)\<close>: the request is sent; the decoded image, its channels reordered,
  becomes a new byte buffer. A failure of the request or of the decoding is the error of
  \<open>image_remote\<close>.
\<close>

definition load_image :: "env \<Rightarrow> string \<Rightarrow> world \<Rightarrow> world \<times> (py_error + nat)" where
  "load_image env url w =
     (let w1 = emit (FetchImage url) w
      in case image_remote env url of
           Inl e \<Rightarrow> (w1, Inl e)
         | Inr img \<Rightarrow>
             (w1\<lparr>store := (store w1)\<lparr>u8_bufs := u8_bufs (store w1) @ [img]\<rparr>\<rparr>,
              Inr (length (u8_bufs (store w1)))))"

text \<open>\<^verbatim>\<open>add_boxes\<close> on the store of the world.\<close>

definition add_boxes_world :: "nat \<Rightarrow> box list \<Rightarrow> world \<Rightarrow> world \<times> (py_error + nat)" where
  "add_boxes_world a boxes w =
     (case add_boxes (store w) a boxes of (h, r) \<Rightarrow> (w\<lparr>store := h\<rparr>, r))"

text \<open>
  The part of \<^verbatim>\<open>main\<close> after the weights are in place: the model section of the sidebar
  and, when the box is ticked, the detection on the image at \<open>a\<close> and its overlay.
\<close>

definition main_detection :: "env \<Rightarrow> nat \<Rightarrow> world \<Rightarrow> world \<times> (py_error + unit)" where
  "main_detection env a w =
     (let w1 = emit Checkbox (emit SidebarMarkdown (emit SidebarMarkdown (emit Stdout w)))
      in if ui_run_yolo env
         then
           (let w2 = emit YoloV3 (emit Slider (emit Slider w1))
            in case yolo_v3 env (u8_bufs (store w2) ! a) (ui_overlap env) (ui_confidence env) of
                 Inl e \<Rightarrow> (w2, Inl e)
               | Inr yolo_boxes \<Rightarrow>
                   (case add_boxes_world a yolo_boxes w2 of
                      (w3, Inl e) \<Rightarrow> (w3, Inl e)
                    | (w3, Inr image3) \<Rightarrow> (emit (StImage image3) (emit StWrite w3), Inr ())))
         else (emit StWarning w1, Inr ()))"

text \<open>
  The part of \<^verbatim>\<open>main\<close> that works on one frame of a selection that is not empty: the frame
  slider, the image of the chosen frame, the chart, the ground truth boxes and their
  overlay, the weights, the detection. Indexing the selection out of range raises
  IndexError. The two tables computed for the chart (\<^verbatim>\<open>frames\<close>, \<^verbatim>\<open>objects_per_frame\<close>) and
  the string expression above the overlay, which is evaluated and dropped, have no effect
  and are left out.
\<close>

definition main_frame ::
  "env \<Rightarrow> annotation list \<Rightarrow> string list \<Rightarrow> world \<Rightarrow> world \<times> (py_error + unit)" where
  "main_frame env metadata selected_frames w =
     (let w1 = emit Slider w;
          selected_frame_index = ui_frame_index env
      in if length selected_frames \<le> selected_frame_index then (w1, Inl IndexError)
         else
           (let selected_frame = selected_frames ! selected_frame_index;
                image_url = path_join DATA_URL_ROOT selected_frame
            in case load_image env image_url w1 of
                 (w2, Inl e) \<Rightarrow> (w2, Inl e)
               | (w2, Inr a) \<Rightarrow>
                   (let w3 = emit SidebarChart w2;
                        boxes = map box.truncate (filter (\<lambda>r. frame r = selected_frame) metadata)
                    in case add_boxes_world a boxes w3 of
                         (w4, Inl e) \<Rightarrow> (w4, Inl e)
                       | (w4, Inr image_with_boxes) \<Rightarrow>
                           (case download_weights env (emit (StImage image_with_boxes) w4) of
                              (w5, Inl e) \<Rightarrow> (w5, Inl e)
                            | (w5, Inr u) \<Rightarrow> main_detection env a w5))))"

text \<open>
  \<^verbatim>\<open>main\<close>. The label is what the select box returns and the two bounds what the range
  slider returns. When no frame is selected the error message is shown and \<^verbatim>\<open>main\<close>
  returns. This is one run of the script; the memoisation of \<^verbatim>\<open>st.cache\<close> across runs is
  not modelled, each decorated function runs when it is called.
\<close>

definition main :: "env \<Rightarrow> world \<Rightarrow> world \<times> (py_error + unit)" where
  "main env w =
     (let w1 = emit Stdout (fst (check_weights_hash env w));
          w2 = emit ReadCsv w1
      in case labels_remote env of
           Inl e \<Rightarrow> (w2, Inl e)
         | Inr metadata \<Rightarrow>
             (let summary = create_summary metadata;
                  w3 = emit Slider (emit Selectbox (emit SidebarTitle w2));
                  l = ui_label env;
                  min_elts = fst (ui_range env);
                  max_elts = snd (ui_range env)
              in case get_selected_frames summary l min_elts max_elts of
                   Inl e \<Rightarrow> (w3, Inl e)
                 | Inr selected_frames \<Rightarrow>
                     if length selected_frames < 1 then (emit StError w3, Inr ())
                     else main_frame env metadata selected_frames w3))"

text \<open>
  The events of the work on one frame: the request for its image, an image shown, and
  the detector run.
\<close>

fun per_frame_event :: "event \<Rightarrow> bool" where
  "per_frame_event (FetchImage url) = True"
| "per_frame_event (StImage a) = True"
| "per_frame_event YoloV3 = True"
| "per_frame_event e = False"

section \<open>Properties of the tables\<close>

lemma index_of_Some_iff: "x \<in> set xs \<Longrightarrow> \<exists>i. index_of x xs = Some i \<and> i < length xs \<and> xs ! i = x"
  by (induction xs) auto

lemma index_of_None_iff: "index_of x xs = None \<longleftrightarrow> x \<notin> set xs"
  by (induction xs) auto

lemma index_of_prefixed: "index_of (p @ x) (map (\<lambda>c. p @ c) xs) = index_of x xs"
  by (induction xs) auto

lemma mask_filter:
  "map fst (filter snd (zip xs (logical_and (map P (map g xs)) (map Q (map g xs)))))
   = filter (\<lambda>r. P (g r) \<and> Q (g r)) xs"
  by (induction xs) (auto simp: logical_and_def)

lemma map_of_distinct_row:
  "distinct (map fst rs) \<Longrightarrow> r \<in> set rs \<Longrightarrow> map_of rs (fst r) = Some (snd r)"
  by (cases r) simp

lemma selected_rows:
  assumes "index_of l (columns S) = Some i"
  shows "get_selected_frames S l a b =
         Inr (map fst (filter (\<lambda>r. a \<le> snd r ! i \<and> snd r ! i \<le> b) (rows S)))"
  using assms mask_filter [where P = "\<lambda>v. a \<le> v" and g = "\<lambda>r. snd r ! i" and xs = "rows S" and Q = "\<lambda>v. v \<le> b"]
  by (simp add: get_selected_frames_def getitem_column_def boolean_mask_def)

text \<open>
  Claim C1. For a summary table \<open>S\<close> (well formed, its index a unique key), a label \<open>l\<close>
  that is one of its columns and integer bounds \<open>a\<close>, \<open>b\<close>, \<^verbatim>\<open>get_selected_frames\<close> returns
  exactly the frame identifiers \<open>f\<close> with \<open>a \<le> S[f, l] \<le> b\<close>, both ends included and none
  left out, in the row order of the summary table. When \<open>b < a\<close> the result is empty.
\<close>

theorem get_selected_frames_exact:
  assumes wf: "well_formed S" and uq: "unique_index S" and col: "l \<in> set (columns S)"
  shows "get_selected_frames S l a b =
           Inr (filter (\<lambda>f. case cell S f l of Some v \<Rightarrow> a \<le> v \<and> v \<le> b | None \<Rightarrow> False)
                  (map fst (rows S)))
         \<and> (b < a \<longrightarrow> get_selected_frames S l a b = Inr [])"
proof -
  from col obtain i where i: "index_of l (columns S) = Some i" "i < length (columns S)"
    using index_of_Some_iff by metis
  have row: "cell S (fst r) l = Some (snd r ! i)" if "r \<in> set (rows S)" for r
  proof -
    have "map_of (rows S) (fst r) = Some (snd r)"
      using uq that by (simp add: unique_index_def map_of_distinct_row)
    moreover have "length (snd r) = length (columns S)"
      using wf that by (simp add: well_formed_def list_all_iff)
    ultimately show ?thesis using i by (simp add: cell_def)
  qed
  have "filter (\<lambda>f. case cell S f l of Some v \<Rightarrow> a \<le> v \<and> v \<le> b | None \<Rightarrow> False)
          (map fst (rows S))
        = map fst (filter (\<lambda>r. a \<le> snd r ! i \<and> snd r ! i \<le> b) (rows S))"
    unfolding filter_map comp_def
    by (rule arg_cong [where f = "map fst"], rule filter_cong) (simp_all add: row)
  moreover have "filter (\<lambda>r. a \<le> snd r ! i \<and> snd r ! i \<le> b) (rows S) = []" if "b < a"
    using that by (auto simp: filter_empty_conv)
  ultimately show ?thesis using selected_rows [OF i(1)] by simp
qed

theorem get_selected_frames_exact_witness:
  "well_formed \<lparr>columns = [''label_car''], rows = [(''f1'', [3]), (''f2'', [10]), (''f3'', [15])]\<rparr>
   \<and> unique_index \<lparr>columns = [''label_car''], rows = [(''f1'', [3]), (''f2'', [10]), (''f3'', [15])]\<rparr>
   \<and> get_selected_frames
         \<lparr>columns = [''label_car''], rows = [(''f1'', [3]), (''f2'', [10]), (''f3'', [15])]\<rparr>
         ''label_car'' 10 20 = Inr [''f2'', ''f3'']
   \<and> get_selected_frames
         \<lparr>columns = [''label_car''], rows = [(''f1'', [3]), (''f2'', [10]), (''f3'', [15])]\<rparr>
         ''label_car'' 20 10 = Inr []"
  using get_selected_frames_exact
          [of "\<lparr>columns = [''label_car''], rows = [(''f1'', [3]), (''f2'', [10]), (''f3'', [15])]\<rparr>"
              "''label_car''" 10 20]
        get_selected_frames_exact
          [of "\<lparr>columns = [''label_car''], rows = [(''f1'', [3]), (''f2'', [10]), (''f3'', [15])]\<rparr>"
              "''label_car''" 20 10]
  by (simp add: well_formed_def unique_index_def cell_def)

lemma map_of_graph:
  "map_of (map (\<lambda>k. (k, g k)) ks) k = (if k \<in> set ks then Some (g k) else None)"
  by (induction ks) auto

lemma length_add_rows: "length (add_rows xs ys) = min (length xs) (length ys)"
  by (simp add: add_rows_def)

lemma foldl_add_rows_length:
  "\<forall>v \<in> set vs. length v = length acc \<Longrightarrow> length (foldl add_rows acc vs) = length acc"
  by (induction vs arbitrary: acc) (auto simp: length_add_rows)

lemma foldl_add_rows_nth:
  "\<forall>v \<in> set vs. length v = length acc \<Longrightarrow> i < length acc \<Longrightarrow>
   foldl add_rows acc vs ! i = acc ! i + sum_list (map (\<lambda>v. v ! i) vs)"
proof (induction vs arbitrary: acc)
  case Nil
  then show ?case by simp
next
  case (Cons v vs)
  have len: "length (add_rows acc v) = length acc"
    using Cons.prems by (simp add: length_add_rows)
  have "foldl add_rows (add_rows acc v) vs ! i
        = add_rows acc v ! i + sum_list (map (\<lambda>v. v ! i) vs)"
    using Cons.prems len by (intro Cons.IH) auto
  moreover have "add_rows acc v ! i = acc ! i + v ! i"
    using Cons.prems by (simp add: add_rows_def)
  ultimately show ?case by simp
qed

lemma sum_indicator: "sum_list (map (\<lambda>r. if P r then 1 else 0) xs) = int (length (filter P xs))"
  by (induction xs) auto

lemma summary_index: "map fst (rows (create_summary T)) = sort (remdups (map frame T))"
  by (simp add: create_summary_def groupby_sum_def get_dummies_def Let_def comp_def case_prod_unfold)

lemma summary_columns:
  "columns (create_summary T) = map (\<lambda>c. ''label_'' @ c) (sort (remdups (map label T)))"
  by (simp add: create_summary_def groupby_sum_def get_dummies_def Let_def comp_def)

lemma summary_row:
  "map_of (rows (create_summary T)) F =
     (if F \<in> frame ` set T
      then Some (foldl add_rows (replicate (length (remdups (map label T))) 0)
                  (map (\<lambda>r. map (\<lambda>c. if label r = c then 1 else 0) (sort (remdups (map label T))))
                       (filter (\<lambda>r. frame r = F) T)))
      else None)"
  by (simp add: create_summary_def groupby_sum_def get_dummies_def Let_def comp_def
      case_prod_unfold map_of_graph filter_map)

text \<open>
  Claim C2. For an annotation table \<open>T\<close>, the row index of \<^verbatim>\<open>create_summary(T)\<close> is exactly
  the set of distinct frames of \<open>T\<close>, each once, so no frame absent from \<open>T\<close> appears. The
  cell at frame \<open>F\<close> in the column of label \<open>L\<close> (which \<^verbatim>\<open>get_dummies\<close> names
  \<^verbatim>\<open>label_L\<close>) is the number of rows of \<open>T\<close> with that frame and that label; there is no
  such cell when \<open>F\<close> is no frame of \<open>T\<close> or \<open>L\<close> no label of \<open>T\<close>.
\<close>

theorem create_summary_counts:
  "set (map fst (rows (create_summary T))) = frame ` set T
   \<and> distinct (map fst (rows (create_summary T)))
   \<and> cell (create_summary T) F (''label_'' @ L) =
       (if F \<in> frame ` set T \<and> L \<in> label ` set T
        then Some (int (length (filter (\<lambda>r. frame r = F \<and> label r = L) T)))
        else None)"
proof -
  let ?cats = "sort (remdups (map label T))"
  let ?vs = "map (\<lambda>r. map (\<lambda>c. if label r = c then 1 else (0::int)) ?cats)
               (filter (\<lambda>r. frame r = F) T)"
  let ?acc = "replicate (length (remdups (map label T))) (0::int)"
  have idx: "set (map fst (rows (create_summary T))) = frame ` set T"
    "distinct (map fst (rows (create_summary T)))"
    by (simp_all add: summary_index)
  have col: "index_of (''label_'' @ L) (columns (create_summary T)) = index_of L ?cats"
    unfolding summary_columns by (rule index_of_prefixed)
  have cnt: "cell (create_summary T) F (''label_'' @ L)
             = Some (int (length (filter (\<lambda>r. frame r = F \<and> label r = L) T)))"
    if F: "F \<in> frame ` set T" and L: "L \<in> label ` set T"
  proof -
    from L have "L \<in> set ?cats" by simp
    then obtain i where i: "index_of L ?cats = Some i" "i < length ?cats" "?cats ! i = L"
      using index_of_Some_iff by metis
    have lens: "\<forall>v \<in> set ?vs. length v = length ?acc" by auto
    have ilt: "i < length ?acc" using i(2) by simp
    have "foldl add_rows ?acc ?vs ! i = ?acc ! i + sum_list (map (\<lambda>v. v ! i) ?vs)"
      using lens ilt by (rule foldl_add_rows_nth)
    also have "?acc ! i = 0" using ilt by simp
    also have "map (\<lambda>v. v ! i) ?vs
               = map (\<lambda>r. if label r = L then 1 else 0) (filter (\<lambda>r. frame r = F) T)"
      using i(2,3) by (simp add: comp_def)
    also have "sum_list \<dots> = int (length (filter (\<lambda>r. label r = L) (filter (\<lambda>r. frame r = F) T)))"
      by (rule sum_indicator)
    finally have val: "foldl add_rows ?acc ?vs ! i
                       = int (length (filter (\<lambda>r. frame r = F \<and> label r = L) T))"
      by (simp add: conj_commute)
    have "length (foldl add_rows ?acc ?vs) = length ?acc"
      using lens by (rule foldl_add_rows_length)
    then have "i < length (foldl add_rows ?acc ?vs)" using ilt by simp
    then show ?thesis
      using F i(1) val col by (simp add: cell_def summary_row)
  qed
  have none: "cell (create_summary T) F (''label_'' @ L) = None"
    if "\<not> (F \<in> frame ` set T \<and> L \<in> label ` set T)"
  proof (cases "F \<in> frame ` set T")
    case False
    then show ?thesis by (simp add: cell_def summary_row)
  next
    case True
    with that have "L \<notin> set ?cats" by simp
    then have "index_of L ?cats = None" by (simp add: index_of_None_iff)
    then show ?thesis using col by (simp add: cell_def split: option.splits)
  qed
  show ?thesis using idx cnt none by auto
qed

theorem create_summary_counts_witness:
  "cell (create_summary
           [\<lparr>xmin = 0, ymin = 0, xmax = 1, ymax = 1, label = ''car'', frame = ''b''\<rparr>,
            \<lparr>xmin = 0, ymin = 0, xmax = 1, ymax = 1, label = ''truck'', frame = ''a''\<rparr>,
            \<lparr>xmin = 2, ymin = 2, xmax = 3, ymax = 3, label = ''car'', frame = ''b''\<rparr>])
        ''b'' ''label_car'' = Some 2"
  using create_summary_counts
          [of "[\<lparr>xmin = 0, ymin = 0, xmax = 1, ymax = 1, label = ''car'', frame = ''b''\<rparr>,
                \<lparr>xmin = 0, ymin = 0, xmax = 1, ymax = 1, label = ''truck'', frame = ''a''\<rparr>,
                \<lparr>xmin = 2, ymin = 2, xmax = 3, ymax = 3, label = ''car'', frame = ''b''\<rparr>]"
              "''b''" "''car''"]
  by simp

text \<open>
  The tables that \<^verbatim>\<open>create_summary\<close> builds are well formed and have a unique index, so
  they are among the summary tables that \<^verbatim>\<open>get_selected_frames\<close> is specified on.
\<close>

lemma create_summary_well_formed:
  "well_formed (create_summary T) \<and> unique_index (create_summary T)"
proof -
  let ?cats = "sort (remdups (map label T))"
  have "inj_on ((@) ''label_'') (set ?cats)" by (rule inj_onI) simp
  then have "distinct (map ((@) ''label_'') ?cats)"
    by (simp only: distinct_map) simp
  then have "distinct (columns (create_summary T))"
    unfolding summary_columns .
  moreover have "length (snd r) = length (columns (create_summary T))"
    if "r \<in> set (rows (create_summary T))" for r
  proof -
    from that obtain f where
      "snd r = foldl add_rows (replicate (length ?cats) 0)
                 (map snd (filter (\<lambda>r. fst r = f)
                    (map (\<lambda>(f, l). (f, map (\<lambda>c. if l = c then 1 else 0) ?cats))
                       (map (\<lambda>r. (frame r, label r)) T))))"
      by (auto simp: create_summary_def groupby_sum_def get_dummies_def Let_def comp_def)
    moreover have "length (foldl add_rows (replicate (length ?cats) 0)
                 (map snd (filter (\<lambda>r. fst r = f)
                    (map (\<lambda>(f, l). (f, map (\<lambda>c. if l = c then 1 else 0) ?cats))
                       (map (\<lambda>r. (frame r, label r)) T)))))
               = length (replicate (length ?cats) (0::int))"
      by (rule foldl_add_rows_length) auto
    ultimately show ?thesis by (simp add: summary_columns)
  qed
  moreover have "unique_index (create_summary T)"
    by (simp add: unique_index_def summary_index)
  ultimately show ?thesis by (simp add: well_formed_def list_all_iff)
qed

section \<open>Exactness of the float operations\<close>

text \<open>
  Rounding to binary64 returns its argument when that is \<open>m * 2 ^ k\<close> with
  \<open>\<bar>m\<bar> < 2 ^ 53\<close> and \<open>- 1074 \<le> k\<close>: the integers and the halves and quarters of integers
  that one or two blends of byte values produce are of this form.
\<close>

lemma bitlen_powi_bounds:
  assumes "0 < a"
  shows "power_int 2 (bitlen a - 1) \<le> (of_int a :: rat)" "(of_int a :: rat) < power_int 2 (bitlen a)"
proof -
  from assms have b1: "1 \<le> bitlen a" by (auto simp: bitlen_alt_def)
  have lo: "2 ^ nat (bitlen a - 1) \<le> a" and hi: "a < 2 ^ nat (bitlen a)"
    using bitlen_bounds [OF assms] by auto
  have "(of_int (2 ^ nat (bitlen a - 1)) :: rat) \<le> of_int a"
    using lo by (simp only: of_int_le_iff)
  then show "power_int 2 (bitlen a - 1) \<le> (of_int a :: rat)"
    using b1 by (simp add: power_int_def)
  have "(of_int a :: rat) < of_int (2 ^ nat (bitlen a))"
    using hi by (simp only: of_int_less_iff)
  then show "(of_int a :: rat) < power_int 2 (bitlen a)"
    using b1 by (simp add: power_int_def)
qed

lemma f64_exponent_bounds:
  assumes "0 < x"
  shows "power_int 2 (f64_exponent x) \<le> x" "x < power_int 2 (f64_exponent x + 1)"
proof -
  obtain a b where ab: "quotient_of x = (a, b)" by (cases "quotient_of x")
  have bpos: "0 < b" using ab by (rule quotient_of_denom_pos)
  have x: "x = of_int a / of_int b" using ab by (rule quotient_of_div)
  have apos: "0 < a" using assms bpos unfolding x by (simp add: zero_less_divide_iff)
  let ?d = "bitlen a - bitlen b"
  have bp: "(0::rat) < of_int b" using bpos by simp
  have lo: "power_int 2 (?d - 1) \<le> x"
  proof -
    have "power_int 2 (?d - 1) * (of_int b :: rat) \<le> power_int 2 (?d - 1) * power_int 2 (bitlen b)"
      using bitlen_powi_bounds(2) [OF bpos] by (intro mult_left_mono) auto
    also have "\<dots> = power_int 2 (bitlen a - 1)"
      by (simp add: power_int_add [symmetric])
    also have "\<dots> \<le> of_int a" using bitlen_powi_bounds(1) [OF apos] .
    finally show ?thesis using bp unfolding x by (simp add: pos_le_divide_eq)
  qed
  have hi: "x < power_int 2 (?d + 1)"
  proof -
    have "(of_int a :: rat) < power_int 2 (bitlen a)" using bitlen_powi_bounds(2) [OF apos] .
    also have "\<dots> = power_int 2 (?d + 1) * power_int 2 (bitlen b - 1)"
      by (simp add: power_int_add [symmetric])
    also have "\<dots> \<le> power_int 2 (?d + 1) * of_int b"
      using bitlen_powi_bounds(1) [OF bpos] by (intro mult_left_mono) auto
    finally show ?thesis using bp unfolding x by (simp add: pos_divide_less_eq)
  qed
  have e: "f64_exponent x = (if power_int 2 ?d \<le> x then ?d else ?d - 1)"
    by (simp add: f64_exponent_def ab)
  show "power_int 2 (f64_exponent x) \<le> x" using lo by (simp add: e)
  show "x < power_int 2 (f64_exponent x + 1)" using hi by (auto simp add: e)
qed

lemma round_half_even_of_int: "round_half_even (of_int n) = n"
  by (simp add: round_half_even_def)

lemma powi_two_pos: "(0::rat) < power_int 2 k"
  by (rule zero_less_power_int) simp

lemma powi_two_less_cancel: "power_int (2::rat) a < power_int 2 b \<Longrightarrow> a < b"
proof (rule ccontr)
  assume lt: "power_int (2::rat) a < power_int 2 b" and "\<not> a < b"
  then have "power_int (2::rat) b \<le> power_int 2 a"
    by (intro power_int_increasing) auto
  with lt show False by simp
qed

lemma f64_round_exact:
  assumes m: "\<bar>m\<bar> < 2 ^ 53" and k: "- 1074 \<le> k"
  shows "f64_round (of_int m * power_int 2 k) = of_int m * power_int 2 k"
proof (cases "m = 0")
  case True
  then show ?thesis by (simp add: f64_round_def)
next
  case False
  let ?x = "of_int m * power_int 2 k :: rat"
  have xne: "?x \<noteq> 0" using False by simp
  have ax: "\<bar>?x\<bar> = of_int \<bar>m\<bar> * power_int 2 k"
    by (simp add: abs_mult)
  have axpos: "0 < \<bar>?x\<bar>" using xne by simp
  let ?e = "f64_exponent \<bar>?x\<bar>"
  have "power_int 2 ?e \<le> \<bar>?x\<bar>" using f64_exponent_bounds(1) [OF axpos] .
  also have "\<bar>?x\<bar> < 2 ^ 53 * power_int 2 k"
  proof -
    have "(of_int \<bar>m\<bar> :: rat) < of_int (2 ^ 53)" using m by (simp only: of_int_less_iff)
    then show ?thesis unfolding ax using powi_two_pos [of k] by simp
  qed
  also have "(2 ^ 53 :: rat) * power_int 2 k = power_int 2 (53 + k)"
    by (simp add: power_int_add)
  finally have "?e < 53 + k" by (rule powi_two_less_cancel)
  then have E: "max ?e (- 1022) - 52 \<le> k" using k by simp
  define s where "s = max ?e (- 1022) - 52"
  define j where "j = nat (k - s)"
  define u where "u = (power_int 2 s :: rat)"
  define p where "p = (power_int 2 k :: rat)"
  have kj: "k = s + int j" using E by (simp add: j_def s_def)
  have upos: "0 < u" unfolding u_def by (rule powi_two_pos)
  have "p = u * 2 ^ j"
    unfolding p_def u_def by (subst kj) (simp add: power_int_add)
  then have q: "of_int m * p / u = of_int (m * 2 ^ j)" using upos by simp
  have "f64_round ?x = of_int (round_half_even (?x / u)) * u"
    using xne by (simp add: f64_round_def Let_def u_def s_def)
  also have "\<dots> = of_int (m * 2 ^ j) * u"
    using q by (simp only: p_def round_half_even_of_int)
  also have "\<dots> = of_int m * p / u * u" by (simp only: q)
  also have "\<dots> = ?x" using upos by (simp add: p_def)
  finally show ?thesis .
qed

lemma f64_round_int: "\<bar>n\<bar> < 2 ^ 53 \<Longrightarrow> f64_round (of_int n) = of_int n"
  using f64_round_exact [of n 0] by simp

lemma f64_round_dyadic:
  assumes "\<bar>n\<bar> < 2 ^ 53" "j \<le> 1074"
  shows "f64_round (of_int n / 2 ^ j) = of_int n / 2 ^ j"
proof -
  have "power_int (2::rat) (- int j) = 1 / 2 ^ j"
    by (simp add: power_int_minus field_simps)
  then show ?thesis using f64_round_exact [of n "- int j"] assms by simp
qed

subsection \<open>Rounding twice, and rounding a positive integer\<close>

lemma round_half_even_bounds: "\<lfloor>y\<rfloor> \<le> round_half_even y" "round_half_even y \<le> \<lfloor>y\<rfloor> + 1"
  by (simp_all add: round_half_even_def Let_def)

lemma f64_round_form:
  assumes "0 < x"
  shows "\<exists>m k. f64_round x = of_int m * power_int 2 k \<and> 0 \<le> m \<and> m \<le> 2 ^ 53 \<and> - 1074 \<le> k
               \<and> \<lfloor>x / power_int 2 k\<rfloor> \<le> m"
proof -
  define E where "E = max (f64_exponent \<bar>x\<bar>) (- 1022)"
  define u where "u = (power_int 2 (E - 52) :: rat)"
  define m where "m = round_half_even (x / u)"
  have ax: "\<bar>x\<bar> = x" using assms by simp
  have upos: "0 < u" unfolding u_def by (rule powi_two_pos)
  have r: "f64_round x = of_int m * u"
    using assms by (simp add: f64_round_def Let_def E_def u_def m_def)
  have "0 \<le> x / u" using assms upos by simp
  then have "0 \<le> \<lfloor>x / u\<rfloor>" by simp
  then have m0: "0 \<le> m" using round_half_even_bounds(1) [of "x / u"] unfolding m_def by linarith
  have "x < power_int 2 (f64_exponent x + 1)" using assms by (rule f64_exponent_bounds(2))
  also have "\<dots> \<le> power_int 2 (E + 1)"
    by (rule power_int_increasing) (simp_all add: E_def ax)
  also have "\<dots> = 2 ^ 53 * u"
  proof -
    have "power_int (2::rat) (53 + (E - 52)) = power_int 2 53 * power_int 2 (E - 52)"
      by (rule power_int_add) simp
    moreover have "53 + (E - 52) = E + 1" by simp
    moreover have "power_int (2::rat) 53 = 2 ^ 53"
      using power_int_of_nat [of "2::rat" 53] by simp
    ultimately show ?thesis by (simp only: u_def)
  qed
  finally have "x / u < 2 ^ 53" using upos by (simp add: pos_divide_less_eq)
  then have "x / u < of_int (2 ^ 53)" by simp
  then have "\<lfloor>x / u\<rfloor> < 2 ^ 53" by (simp only: floor_less_iff)
  then have m1: "m \<le> 2 ^ 53" using round_half_even_bounds(2) [of "x / u"] unfolding m_def by linarith
  have k: "- 1074 \<le> E - 52" by (simp add: E_def)
  have "\<lfloor>x / u\<rfloor> \<le> m" using round_half_even_bounds(1) [of "x / u"] by (simp add: m_def)
  then show ?thesis using r m0 m1 k unfolding u_def by blast
qed

lemma f64_round_idem:
  assumes "0 \<le> x"
  shows "f64_round (f64_round x) = f64_round x"
proof (cases "x = 0")
  case True
  then show ?thesis by (simp add: f64_round_def)
next
  case False
  with assms have "0 < x" by simp
  from f64_round_form [OF this] obtain m k where
    r: "f64_round x = of_int m * power_int 2 k" and m: "0 \<le> m" "m \<le> 2 ^ 53" and k: "- 1074 \<le> k"
    by blast
  show ?thesis
  proof (cases "m = 2 ^ 53")
    case True
    have "power_int (2::rat) (k + 1) = power_int 2 k * 2"
      by (simp add: power_int_add)
    then have e: "of_int m * power_int 2 k = (of_int (2 ^ 52) * power_int 2 (k + 1) :: rat)"
      using True by simp
    have "f64_round (of_int (2 ^ 52) * power_int 2 (k + 1)) = of_int (2 ^ 52) * power_int 2 (k + 1)"
      using k by (intro f64_round_exact) simp_all
    then show ?thesis unfolding r e .
  next
    case False
    with m have "\<bar>m\<bar> < 2 ^ 53" by simp
    then show ?thesis unfolding r using k by (rule f64_round_exact)
  qed
qed

lemma f64_round_pos:
  assumes "1 \<le> x"
  shows "0 < f64_round x"
proof -
  have xpos: "0 < x" using assms by simp
  from f64_round_form [OF xpos] obtain m k where
    r: "f64_round x = of_int m * power_int 2 k" and m: "0 \<le> m" and fl: "\<lfloor>x / power_int 2 k\<rfloor> \<le> m"
    and rk: "f64_round x = of_int m * power_int 2 k"
    by blast
  show ?thesis
  proof (rule ccontr)
    assume "\<not> 0 < f64_round x"
    then have "m = 0" using m r powi_two_pos [of k] by (simp add: zero_less_mult_iff)
    then have z: "f64_round x = 0" using r by simp
    have ax: "\<bar>x\<bar> = x" using xpos by simp
    define E where "E = max (f64_exponent x) (- 1022)"
    define u where "u = (power_int 2 (E - 52) :: rat)"
    have upos: "0 < u" unfolding u_def by (rule powi_two_pos)
    have "f64_round x = of_int (round_half_even (x / u)) * u"
      using xpos by (simp add: f64_round_def Let_def E_def u_def ax)
    with z upos have rz: "round_half_even (x / u) = 0" by simp
    have "u \<le> x"
    proof (cases "f64_exponent x \<le> - 1022")
      case True
      then have "E - 52 \<le> 0" by (simp add: E_def)
      then have "u \<le> power_int 2 0" unfolding u_def by (intro power_int_increasing) simp_all
      then show ?thesis using assms by simp
    next
      case False
      then have "E = f64_exponent x" by (simp add: E_def)
      then have "u \<le> power_int 2 (f64_exponent x)"
        unfolding u_def by (intro power_int_increasing) simp_all
      also have "\<dots> \<le> x" using xpos by (rule f64_exponent_bounds(1))
      finally show ?thesis .
    qed
    then have "1 \<le> x / u" using upos by (simp add: pos_le_divide_eq)
    then have "1 \<le> \<lfloor>x / u\<rfloor>" by simp
    then show False using round_half_even_bounds(1) [of "x / u"] rz by linarith
  qed
qed

lemma f64_round_nonneg:
  assumes "0 \<le> x"
  shows "0 \<le> f64_round x"
proof (cases "x = 0")
  case True
  then show ?thesis by (simp add: f64_round_def)
next
  case False
  with assms have "0 < x" by simp
  from f64_round_form [OF this] obtain m k where
    "f64_round x = of_int m * power_int 2 k" and "0 \<le> m"
    by blast
  then show ?thesis using powi_two_pos [of k] by simp
qed

section \<open>Properties of the box overlay\<close>

subsection \<open>Slices and regions\<close>

lemma slice_bound_le: "slice_bound n i \<le> n"
  unfolding slice_bound_def by (auto simp: nat_le_iff)

lemma length_map_slice: "length (map_slice f lo hi xs) = length xs"
  using slice_bound_le [of "length xs" lo] slice_bound_le [of "length xs" hi]
  by (simp add: map_slice_def Let_def)

lemma nth_map_slice:
  assumes "i < length xs"
  shows "map_slice f lo hi xs ! i = (if in_slice (length xs) lo hi i then f (xs ! i) else xs ! i)"
proof -
  define s where "s = slice_bound (length xs) lo"
  define e where "e = slice_bound (length xs) hi"
  have s: "s \<le> length xs" and e: "e \<le> length xs"
    by (simp_all add: s_def e_def slice_bound_le)
  have m: "map_slice f lo hi xs = take s xs @ map f (take (e - s) (drop s xs)) @ drop (max s e) xs"
    by (simp add: map_slice_def Let_def s_def e_def)
  have io: "in_slice (length xs) lo hi i \<longleftrightarrow> s \<le> i \<and> i < e"
    by (simp add: in_slice_def s_def e_def)
  consider "i < s" | "s \<le> i" "i < e" | "s \<le> i" "e \<le> i" by linarith
  then show ?thesis
  proof cases
    case 1
    then show ?thesis using s assms by (simp add: m io nth_append)
  next
    case 2
    have d: "i - s < e - s" "i - s < length xs - s" "s + (i - s) = i" "min (length xs) s = s"
      using 2 s e assms by simp_all
    have "map_slice f lo hi xs ! i = map f (take (e - s) (drop s xs)) ! (i - s)"
      using 2 d unfolding m by (simp add: nth_append)
    also have "\<dots> = f (xs ! i)"
      using d by simp
    finally show ?thesis using 2 by (simp add: io)
  next
    case 3
    have len2: "length (map f (take (e - s) (drop s xs))) = e - s"
      using s e by simp
    have d: "\<not> i < s" "\<not> i - s < e - s" "min (length xs) s = s"
      "min (length xs - s) (e - s) = e - s" "max s e + (i - s - (e - s)) = i"
      using 3 s e assms by simp_all
    have "map_slice f lo hi xs ! i = drop (max s e) xs ! (i - s - (e - s))"
      using d(1-4) unfolding m by (simp add: nth_append)
    also have "\<dots> = xs ! i"
      using d(5) s e by simp
    finally show ?thesis using 3 by (simp add: io)
  qed
qed

lemma length_map_region: "length (map_region f y0 y1 x0 x1 img) = length img"
  by (simp add: map_region_def length_map_slice)

lemma nth_map_region:
  "y < length img \<Longrightarrow>
   map_region f y0 y1 x0 x1 img ! y =
     (if in_slice (length img) y0 y1 y then map_slice f x0 x1 (img ! y) else img ! y)"
  by (simp add: map_region_def nth_map_slice)

lemma same_shape_map_region: "same_shape (map_region f y0 y1 x0 x1 img) img"
  unfolding same_shape_def
  by (rule nth_equalityI) (simp_all add: length_map_region nth_map_region length_map_slice)

lemma pixel_map_region:
  "y < length img \<Longrightarrow> x < length (img ! y) \<Longrightarrow>
   map_region f y0 y1 x0 x1 img ! y ! x =
     (if in_slice (length img) y0 y1 y \<and> in_slice (length (img ! y)) x0 x1 x
      then f (img ! y ! x) else img ! y ! x)"
  by (simp add: nth_map_region nth_map_slice)

lemma same_shape_refl: "same_shape a a"
  by (simp add: same_shape_def)

lemma same_shape_trans: "same_shape a b \<Longrightarrow> same_shape b c \<Longrightarrow> same_shape a c"
  by (simp add: same_shape_def)

lemma same_shape_length: "same_shape a b \<Longrightarrow> length a = length b"
  unfolding same_shape_def by (metis length_map)

lemma same_shape_row: "same_shape a b \<Longrightarrow> y < length b \<Longrightarrow> length (a ! y) = length (b ! y)"
  unfolding same_shape_def by (metis length_map nth_map)

lemma covers_same_shape:
  "same_shape a b \<Longrightarrow> y < length b \<Longrightarrow> covers a bx y x = covers b bx y x"
  by (simp add: covers_def same_shape_length same_shape_row)

lemma same_shape_map_image: "same_shape (map_image f img) img"
  by (simp add: same_shape_def map_image_def comp_def)

lemma pixel_map_image:
  "y < length img \<Longrightarrow> x < length (img ! y) \<Longrightarrow> map_image f img ! y ! x = map_pixel f (img ! y ! x)"
  by (simp add: map_image_def)

subsection \<open>The loop on the store and on the image value\<close>

lemma blend_boxes_error:
  "\<exists>b \<in> set bs. LABEL_COLORS (label b) = None \<Longrightarrow> snd (blend_boxes img bs) = Inl KeyError"
  by (induction bs arbitrary: img) (auto split: option.splits)

lemma blend_boxes_pixels:
  assumes "\<forall>b \<in> set bs. LABEL_COLORS (label b) \<noteq> None"
  shows "snd (blend_boxes img bs) = Inr ()
         \<and> same_shape (fst (blend_boxes img bs)) img
         \<and> (\<forall>y < length img. \<forall>x < length (img ! y).
               fst (blend_boxes img bs) ! y ! x =
                 foldl (\<lambda>p b. blend (the (LABEL_COLORS (label b))) p) (img ! y ! x)
                   (filter (\<lambda>b. covers img b y x) bs))"
  using assms
proof (induction bs arbitrary: img)
  case Nil
  then show ?case by (simp add: same_shape_refl)
next
  case (Cons b bs)
  from Cons.prems obtain c where c: "LABEL_COLORS (label b) = Some c" by auto
  define img1 where "img1 = map_region (add_color c) (ymin b) (ymax b) (xmin b) (xmax b) img"
  define img2 where
    "img2 = map_region (map_pixel (\<lambda>v. f64_div v 2)) (ymin b) (ymax b) (xmin b) (xmax b) img1"
  have step: "blend_boxes img (b # bs) = blend_boxes img2 bs"
    by (simp add: c img1_def img2_def)
  have sh1: "same_shape img1 img" unfolding img1_def by (rule same_shape_map_region)
  have sh2: "same_shape img2 img"
    using same_shape_map_region sh1 unfolding img2_def by (rule same_shape_trans)
  have px: "img2 ! y ! x = (if covers img b y x then blend c (img ! y ! x) else img ! y ! x)"
    if "y < length img" "x < length (img ! y)" for y x
  proof -
    have y1: "y < length img1" and x1: "x < length (img1 ! y)"
      using that sh1 by (simp_all add: same_shape_length same_shape_row)
    have "img2 ! y ! x = (if covers img1 b y x then map_pixel (\<lambda>v. f64_div v 2) (img1 ! y ! x)
                          else img1 ! y ! x)"
      unfolding img2_def using y1 x1 by (simp add: pixel_map_region covers_def)
    also have "covers img1 b y x = covers img b y x"
      using sh1 that(1) by (rule covers_same_shape)
    also have "img1 ! y ! x = (if covers img b y x then add_color c (img ! y ! x) else img ! y ! x)"
      unfolding img1_def using that by (simp add: pixel_map_region covers_def)
    finally show ?thesis by (simp add: blend_def)
  qed
  have IH: "snd (blend_boxes img2 bs) = Inr ()
         \<and> same_shape (fst (blend_boxes img2 bs)) img2
         \<and> (\<forall>y < length img2. \<forall>x < length (img2 ! y).
               fst (blend_boxes img2 bs) ! y ! x =
                 foldl (\<lambda>p b. blend (the (LABEL_COLORS (label b))) p) (img2 ! y ! x)
                   (filter (\<lambda>b. covers img2 b y x) bs))"
    using Cons.prems by (intro Cons.IH) simp
  have "fst (blend_boxes img2 bs) ! y ! x =
          foldl (\<lambda>p b. blend (the (LABEL_COLORS (label b))) p) (img ! y ! x)
            (filter (\<lambda>b. covers img b y x) (b # bs))"
    if yx: "y < length img" "x < length (img ! y)" for y x
  proof -
    have y2: "y < length img2" and x2: "x < length (img2 ! y)"
      using yx sh2 by (simp_all add: same_shape_length same_shape_row)
    have cv: "(\<lambda>b. covers img2 b y x) = (\<lambda>b. covers img b y x)"
      using covers_same_shape [OF sh2 yx(1)] by auto
    show ?thesis using IH y2 x2 px [OF yx] by (simp add: cv c)
  qed
  moreover have "same_shape (fst (blend_boxes img2 bs)) img"
    using IH sh2 by (blast intro: same_shape_trans)
  ultimately show ?case using IH unfolding step by blast
qed

lemma add_boxes_loop_pure:
  "a < length (f64_bufs h) \<Longrightarrow>
   add_boxes_loop h a bs =
     (h\<lparr>f64_bufs := (f64_bufs h)[a := fst (blend_boxes (f64_bufs h ! a) bs)]\<rparr>,
      snd (blend_boxes (f64_bufs h ! a) bs))"
proof (induction bs arbitrary: h)
  case Nil
  then show ?case by simp
next
  case (Cons b bs)
  show ?case
  proof (cases "LABEL_COLORS (label b)")
    case None
    then show ?thesis by simp
  next
    case (Some c)
    define h2 where "h2 = idiv_region (iadd_region h a (ymin b) (ymax b) (xmin b) (xmax b) c) a
                            (ymin b) (ymax b) (xmin b) (xmax b) 2"
    have len: "a < length (f64_bufs h2)"
      using Cons.prems by (simp add: h2_def idiv_region_def iadd_region_def)
    have "add_boxes_loop h a (b # bs) = add_boxes_loop h2 a bs"
      by (simp add: Some h2_def)
    also have "\<dots> = (h2\<lparr>f64_bufs := (f64_bufs h2)[a := fst (blend_boxes (f64_bufs h2 ! a) bs)]\<rparr>,
                       snd (blend_boxes (f64_bufs h2 ! a) bs))"
      using len by (rule Cons.IH)
    finally show ?thesis
      using Cons.prems by (simp add: Some h2_def idiv_region_def iadd_region_def)
  qed
qed

lemma add_boxes_eq:
  "add_boxes h a bs =
     (case snd (blend_boxes (map_image uint8_to_f64 (u8_bufs h ! a)) bs) of
        Inl e \<Rightarrow>
          (h\<lparr>f64_bufs := f64_bufs h @ [fst (blend_boxes (map_image uint8_to_f64 (u8_bufs h ! a)) bs)]\<rparr>,
           Inl e)
      | Inr u \<Rightarrow>
          (h\<lparr>f64_bufs := f64_bufs h @ [fst (blend_boxes (map_image uint8_to_f64 (u8_bufs h ! a)) bs)],
             u8_bufs := u8_bufs h @
               [map_image f64_to_uint8 (fst (blend_boxes (map_image uint8_to_f64 (u8_bufs h ! a)) bs))]\<rparr>,
           Inr (length (u8_bufs h))))"
proof -
  define h1 where "h1 = h\<lparr>f64_bufs := f64_bufs h @ [map_image uint8_to_f64 (u8_bufs h ! a)]\<rparr>"
  have a1: "length (f64_bufs h) < length (f64_bufs h1)" by (simp add: h1_def)
  note loop = add_boxes_loop_pure [OF a1, of bs, unfolded h1_def]
  show ?thesis
    by (simp add: add_boxes_def astype_float64_def astype_uint8_def loop split: sum.splits)
qed

subsection \<open>One and two blends of a byte\<close>

lemma uint8_to_f64_int: "uint8_to_f64 w = rat_of_int (uint w)"
  unfolding uint8_to_f64_def by (simp del: of_int_uint add: of_int_uint [symmetric, where 'a = rat])

lemma uint8_range: "0 \<le> uint (w :: uint8)" "uint (w :: uint8) < 256"
  using uint_bounded [of w] by simp_all

lemma trunc_of_int: "trunc_toward_zero (rat_of_int n) = n"
  by (simp add: trunc_toward_zero_def)

lemma f64_uint8_roundtrip: "f64_to_uint8 (uint8_to_f64 w) = w"
  unfolding f64_to_uint8_def uint8_to_f64_int trunc_of_int by simp

lemma roundtrip_pixel: "map_pixel f64_to_uint8 (map_pixel uint8_to_f64 p) = p"
  by (cases p) (simp add: map_pixel_def f64_uint8_roundtrip)

lemma roundtrip_image: "map_image f64_to_uint8 (map_image uint8_to_f64 img) = img"
  by (simp add: map_image_def comp_def roundtrip_pixel map_idI)

lemma half_blend_once:
  assumes "0 \<le> n" "n < 256" "0 \<le> c" "c \<le> 255"
  shows "f64_div (f64_add (rat_of_int n) (of_int c)) 2 = (rat_of_int n + rat_of_int c) / 2"
proof -
  have n: "\<bar>n + c\<bar> < 2 ^ 53" using assms by simp
  have "f64_add (rat_of_int n) (of_int c) = f64_round (of_int (n + c))"
    by (simp add: f64_add_def)
  also have "\<dots> = of_int (n + c)" using n by (rule f64_round_int)
  finally have a: "f64_add (rat_of_int n) (of_int c) = of_int (n + c)" .
  have "f64_div (of_int (n + c)) 2 = of_int (n + c) / 2 ^ 1"
    unfolding f64_div_def using f64_round_dyadic [OF n, of 1] by simp
  then show ?thesis by (simp add: a)
qed

lemma half_blend_then:
  assumes "0 \<le> n" "n < 256" "0 \<le> c1" "c1 \<le> 255" "0 \<le> c2" "c2 \<le> 255"
  shows "f64_div (f64_add ((rat_of_int n + rat_of_int c1) / 2) (of_int c2)) 2
         = ((rat_of_int n + rat_of_int c1) / 2 + rat_of_int c2) / 2"
proof -
  have n: "\<bar>n + c1 + 2 * c2\<bar> < 2 ^ 53" using assms by simp
  have e: "(rat_of_int n + rat_of_int c1) / 2 + rat_of_int c2 = of_int (n + c1 + 2 * c2) / 2 ^ 1"
    by (simp add: field_simps)
  have a: "f64_add ((rat_of_int n + rat_of_int c1) / 2) (of_int c2) = of_int (n + c1 + 2 * c2) / 2 ^ 1"
    unfolding f64_add_def e using n by (rule f64_round_dyadic) simp
  have "f64_div (of_int (n + c1 + 2 * c2) / 2 ^ 1) 2 = of_int (n + c1 + 2 * c2) / 2 ^ 2"
    unfolding f64_div_def using f64_round_dyadic [OF n, of 2] by simp
  then show ?thesis unfolding a by (simp add: field_simps)
qed

lemma trunc_nonneg: "0 \<le> x \<Longrightarrow> trunc_toward_zero x = \<lfloor>x\<rfloor>"
  by (simp add: trunc_toward_zero_def)

lemma to_uint8_once:
  assumes "0 \<le> c" "c \<le> 255"
  shows "f64_to_uint8 (f64_div (f64_add (uint8_to_f64 w) (of_int c)) 2) = spec_half_blend c w"
proof -
  have "0 \<le> (rat_of_int (uint w) + rat_of_int c) / 2"
    using assms uint8_range(1) [of w] by (simp del: of_int_uint)
  then show ?thesis
    unfolding uint8_to_f64_int half_blend_once [OF uint8_range assms] f64_to_uint8_def
      spec_half_blend_def
    by (simp only: trunc_nonneg)
qed

lemma to_uint8_then:
  assumes "0 \<le> c1" "c1 \<le> 255" "0 \<le> c2" "c2 \<le> 255"
  shows "f64_to_uint8 (f64_div (f64_add (f64_div (f64_add (uint8_to_f64 w) (of_int c1)) 2) (of_int c2)) 2)
         = spec_half_blend_then c1 c2 w"
proof -
  have "0 \<le> ((rat_of_int (uint w) + rat_of_int c1) / 2 + rat_of_int c2) / 2"
    using assms uint8_range(1) [of w] by (simp del: of_int_uint)
  then show ?thesis
    unfolding uint8_to_f64_int half_blend_once [OF uint8_range assms(1,2)]
      half_blend_then [OF uint8_range assms] f64_to_uint8_def spec_half_blend_then_def
    by (simp only: trunc_nonneg)
qed

lemma LABEL_COLORS_dom:
  "dom LABEL_COLORS = {''car'', ''pedestrian'', ''truck'', ''trafficLight'', ''biker''}"
  by (auto simp: LABEL_COLORS_def split: if_splits)

lemma LABEL_COLORS_byte: "LABEL_COLORS l = Some c \<Longrightarrow> byte_color c"
  by (auto simp: LABEL_COLORS_def byte_color_def split: if_splits)

lemma blend_once_pixel:
  "byte_color c \<Longrightarrow> map_pixel f64_to_uint8 (blend c (map_pixel uint8_to_f64 p)) = spec_blend_pixel c p"
  by (cases c; cases p)
     (simp add: byte_color_def blend_def add_color_def map_pixel_def spec_blend_pixel_def to_uint8_once)

lemma blend_then_pixel:
  "byte_color c1 \<Longrightarrow> byte_color c2 \<Longrightarrow>
   map_pixel f64_to_uint8 (blend c2 (blend c1 (map_pixel uint8_to_f64 p)))
     = spec_blend_pixel_then c1 c2 p"
  by (cases c1; cases c2; cases p)
     (simp add: byte_color_def blend_def add_color_def map_pixel_def spec_blend_pixel_then_def
        to_uint8_then)

lemma spec_blend_pixel_then_same: "spec_blend_pixel_then c c p = spec_blend_pixel_twice c p"
  by (cases c; cases p)
     (simp add: spec_blend_pixel_then_def spec_blend_pixel_twice_def spec_half_blend_then_def
        spec_half_blend_twice_def)

lemma add_boxes_image_pixels:
  assumes "\<forall>b \<in> set bs. LABEL_COLORS (label b) \<noteq> None"
  shows "\<exists>out. add_boxes_image h a bs = Inr out
           \<and> same_shape out (u8_bufs h ! a)
           \<and> (\<forall>y < length (u8_bufs h ! a). \<forall>x < length (u8_bufs h ! a ! y).
                 out ! y ! x =
                   map_pixel f64_to_uint8
                     (foldl (\<lambda>p b. blend (the (LABEL_COLORS (label b))) p)
                        (map_pixel uint8_to_f64 (u8_bufs h ! a ! y ! x))
                        (filter (\<lambda>b. covers (u8_bufs h ! a) b y x) bs)))"
proof -
  let ?img = "u8_bufs h ! a"
  let ?f = "map_image uint8_to_f64 ?img"
  let ?r = "fst (blend_boxes ?f bs)"
  note bb = blend_boxes_pixels [OF assms, of ?f]
  have ok: "snd (blend_boxes ?f bs) = Inr ()" using bb by blast
  have shr: "same_shape ?r ?f" using bb by blast
  have shf: "same_shape ?f ?img" by (rule same_shape_map_image)
  have sh: "same_shape ?r ?img" using shr shf by (rule same_shape_trans)
  have res: "add_boxes_image h a bs = Inr (map_image f64_to_uint8 ?r)"
    by (simp add: add_boxes_image_def add_boxes_eq ok)
  have sho: "same_shape (map_image f64_to_uint8 ?r) ?img"
    using same_shape_map_image sh by (rule same_shape_trans)
  have px: "map_image f64_to_uint8 ?r ! y ! x =
              map_pixel f64_to_uint8
                (foldl (\<lambda>p b. blend (the (LABEL_COLORS (label b))) p)
                   (map_pixel uint8_to_f64 (?img ! y ! x))
                   (filter (\<lambda>b. covers ?img b y x) bs))"
    if yx: "y < length ?img" "x < length (?img ! y)" for y x
  proof -
    have yf: "y < length ?f" and xf: "x < length (?f ! y)"
      using yx shf by (simp_all add: same_shape_length same_shape_row)
    have yr: "y < length ?r" and xr: "x < length (?r ! y)"
      using yf xf shr by (simp_all add: same_shape_length same_shape_row)
    have cv: "(\<lambda>b. covers ?f b y x) = (\<lambda>b. covers ?img b y x)"
      using covers_same_shape [OF shf yx(1)] by auto
    have "?r ! y ! x = foldl (\<lambda>p b. blend (the (LABEL_COLORS (label b))) p) (?f ! y ! x)
                          (filter (\<lambda>b. covers ?f b y x) bs)"
      using bb yf xf by blast
    then show ?thesis
      using yr xr yx by (simp add: pixel_map_image cv)
  qed
  show ?thesis using res sho px by blast
qed

subsection \<open>What \<^verbatim>\<open>add_boxes\<close> returns\<close>

lemma all_mapped: "\<forall>b \<in> set bs. label b \<in> dom LABEL_COLORS \<Longrightarrow> \<forall>b \<in> set bs. LABEL_COLORS (label b) \<noteq> None"
  by (simp add: dom_def)

text \<open>
  Claim C3. For the byte image at address \<open>a\<close> and a box table whose labels are all keys
  of the color table, \<^verbatim>\<open>add_boxes\<close> returns an image of the same shape in which a pixel
  of the region \<^verbatim>\<open>[ymin:ymax, xmin:xmax]\<close> of one box \<open>b\<close> (and of no other box of the table)
  is \<open>(pixel + color) / 2\<close> as computed without overflow on exact numbers and then
  truncated to a byte, and a pixel outside every box region is unchanged.
\<close>

theorem add_boxes_blends_region:
  assumes "a < length (u8_bufs h)" and "\<forall>b \<in> set boxes. label b \<in> dom LABEL_COLORS"
  shows "\<exists>out. add_boxes_image h a boxes = Inr out
           \<and> same_shape out (u8_bufs h ! a)
           \<and> (\<forall>y < length (u8_bufs h ! a). \<forall>x < length (u8_bufs h ! a ! y).
                 (\<forall>b c. filter (\<lambda>b. covers (u8_bufs h ! a) b y x) boxes = [b]
                         \<longrightarrow> LABEL_COLORS (label b) = Some c
                         \<longrightarrow> out ! y ! x = spec_blend_pixel c (u8_bufs h ! a ! y ! x))
               \<and> (filter (\<lambda>b. covers (u8_bufs h ! a) b y x) boxes = []
                         \<longrightarrow> out ! y ! x = u8_bufs h ! a ! y ! x))"
proof -
  from add_boxes_image_pixels [OF all_mapped [OF assms(2)], of h a]
  obtain out where out: "add_boxes_image h a boxes = Inr out"
    "same_shape out (u8_bufs h ! a)"
    "\<And>y x. y < length (u8_bufs h ! a) \<Longrightarrow> x < length (u8_bufs h ! a ! y) \<Longrightarrow>
       out ! y ! x =
         map_pixel f64_to_uint8
           (foldl (\<lambda>p b. blend (the (LABEL_COLORS (label b))) p)
              (map_pixel uint8_to_f64 (u8_bufs h ! a ! y ! x))
              (filter (\<lambda>b. covers (u8_bufs h ! a) b y x) boxes))"
    by blast
  have one: "out ! y ! x = spec_blend_pixel c (u8_bufs h ! a ! y ! x)"
    if "y < length (u8_bufs h ! a)" "x < length (u8_bufs h ! a ! y)"
      "filter (\<lambda>b. covers (u8_bufs h ! a) b y x) boxes = [b]" "LABEL_COLORS (label b) = Some c"
    for y x b c
    using out(3) [OF that(1,2)] that(3,4) LABEL_COLORS_byte [OF that(4)]
    by (simp add: blend_once_pixel)
  have none: "out ! y ! x = u8_bufs h ! a ! y ! x"
    if "y < length (u8_bufs h ! a)" "x < length (u8_bufs h ! a ! y)"
      "filter (\<lambda>b. covers (u8_bufs h ! a) b y x) boxes = []"
    for y x
    using out(3) [OF that(1,2)] that(3) by (simp add: roundtrip_pixel)
  show ?thesis using out(1,2) one none by blast
qed

lemma spec_half_blend_div: "spec_half_blend c v = word_of_int ((uint v + c) div 2)"
proof -
  have "(rat_of_int (uint v) + rat_of_int c) / 2 = rat_of_int (uint v + c) / rat_of_int 2"
    by (simp del: of_int_uint)
  then show ?thesis
    unfolding spec_half_blend_def by (simp only: floor_divide_of_int_eq)
qed

lemma spec_half_blend_then_div:
  "spec_half_blend_then c1 c2 v = word_of_int ((uint v + c1 + 2 * c2) div 4)"
proof -
  have "((rat_of_int (uint v) + rat_of_int c1) / 2 + rat_of_int c2) / 2
        = rat_of_int (uint v + c1 + 2 * c2) / rat_of_int 4"
    by (simp del: of_int_uint add: field_simps)
  then show ?thesis
    unfolding spec_half_blend_then_def by (simp only: floor_divide_of_int_eq)
qed

lemma spec_half_blend_twice_div:
  "spec_half_blend_twice c v = word_of_int ((uint v + 3 * c) div 4)"
proof -
  have "spec_half_blend_twice c v = spec_half_blend_then c c v"
    by (simp only: spec_half_blend_then_def spec_half_blend_twice_def)
  moreover have "uint v + c + 2 * c = uint v + 3 * c" by simp
  ultimately show ?thesis by (simp only: spec_half_blend_then_div)
qed

theorem add_boxes_blends_region_witness:
  "\<exists>out. add_boxes_image \<lparr>u8_bufs = [[[(0, 3, 255), (7, 7, 7)]]], f64_bufs = []\<rparr> 0
            [\<lparr>xmin = 0, ymin = 0, xmax = 1, ymax = 1, label = ''car''\<rparr>] = Inr out
         \<and> out ! 0 ! 0 = (127, 1, 127) \<and> out ! 0 ! 1 = (7, 7, 7)"
proof -
  let ?h = "\<lparr>u8_bufs = [[[(0, 3, 255), (7, 7, 7)]]], f64_bufs = []\<rparr> :: heap"
  let ?b = "\<lparr>xmin = 0, ymin = 0, xmax = 1, ymax = 1, label = ''car''\<rparr> :: box"
  have car: "LABEL_COLORS ''car'' = Some (255, 0, 0)" by (simp add: LABEL_COLORS_def)
  have "0 < length (u8_bufs ?h)" and "\<forall>b \<in> set [?b]. label b \<in> dom LABEL_COLORS"
    using car by auto
  from add_boxes_blends_region [OF this]
  obtain out where out: "add_boxes_image ?h 0 [?b] = Inr out"
    and px: "\<forall>y < length (u8_bufs ?h ! 0). \<forall>x < length (u8_bufs ?h ! 0 ! y).
                 (\<forall>b c. filter (\<lambda>b. covers (u8_bufs ?h ! 0) b y x) [?b] = [b]
                         \<longrightarrow> LABEL_COLORS (label b) = Some c
                         \<longrightarrow> out ! y ! x = spec_blend_pixel c (u8_bufs ?h ! 0 ! y ! x))
               \<and> (filter (\<lambda>b. covers (u8_bufs ?h ! 0) b y x) [?b] = []
                         \<longrightarrow> out ! y ! x = u8_bufs ?h ! 0 ! y ! x)"
    by blast
  have "out ! 0 ! 0 = spec_blend_pixel (255, 0, 0) (0, 3, 255)"
    using px [rule_format, of 0 0, THEN conjunct1, rule_format, of ?b "(255, 0, 0)"] car
    by (simp add: covers_def in_slice_def slice_bound_def)
  then have p0: "out ! 0 ! 0 = (127, 1, 127)"
    by (simp add: spec_blend_pixel_def spec_half_blend_div)
  have p1: "out ! 0 ! 1 = (7, 7, 7)"
    using px [rule_format, of 0 1, THEN conjunct2]
    by (simp add: covers_def in_slice_def slice_bound_def)
  show ?thesis using out p0 p1 by blast
qed

lemma car_color: "LABEL_COLORS ''car'' = Some (255, 0, 0)"
  by (simp add: LABEL_COLORS_def)

lemma truck_color: "LABEL_COLORS ''truck'' = Some (0, 0, 255)"
  by (simp add: LABEL_COLORS_def)

lemma single_pixel_image:
  assumes "same_shape out [[p]]"
  shows "out = [[out ! 0 ! 0]]"
proof -
  from assms have "map length out = [1]" by (simp add: same_shape_def)
  then obtain row where "out = [row]" "length row = 1"
    by (cases out) auto
  then show ?thesis by (cases row) auto
qed

lemma single_pixel_one_box:
  assumes "LABEL_COLORS l = Some c"
  shows "add_boxes_image \<lparr>u8_bufs = [[[p]]], f64_bufs = []\<rparr> 0
           [\<lparr>xmin = 0, ymin = 0, xmax = 1, ymax = 1, label = l\<rparr>] = Inr [[spec_blend_pixel c p]]"
proof -
  let ?h = "\<lparr>u8_bufs = [[[p]]], f64_bufs = []\<rparr> :: heap"
  let ?b = "\<lparr>xmin = 0, ymin = 0, xmax = 1, ymax = 1, label = l\<rparr> :: box"
  have "\<forall>b \<in> set [?b]. LABEL_COLORS (label b) \<noteq> None"
    by (simp add: assms del: not_None_eq)
  from add_boxes_image_pixels [OF this, of ?h 0]
  obtain out where out: "add_boxes_image ?h 0 [?b] = Inr out"
    and sh: "same_shape out (u8_bufs ?h ! 0)"
    and px: "\<forall>y < length (u8_bufs ?h ! 0). \<forall>x < length (u8_bufs ?h ! 0 ! y).
                 out ! y ! x =
                   map_pixel f64_to_uint8
                     (foldl (\<lambda>p b. blend (the (LABEL_COLORS (label b))) p)
                        (map_pixel uint8_to_f64 (u8_bufs ?h ! 0 ! y ! x))
                        (filter (\<lambda>b. covers (u8_bufs ?h ! 0) b y x) [?b]))"
    by blast
  have "out ! 0 ! 0 = spec_blend_pixel c p"
    using px [rule_format, of 0 0] LABEL_COLORS_byte [OF assms]
    by (simp add: covers_def in_slice_def slice_bound_def assms blend_once_pixel)
  moreover have "out = [[out ! 0 ! 0]]" using sh by (intro single_pixel_image [of out p]) simp
  ultimately show ?thesis using out by simp
qed

lemma single_pixel_two_boxes:
  assumes "LABEL_COLORS l1 = Some c1" and "LABEL_COLORS l2 = Some c2"
  shows "add_boxes_image \<lparr>u8_bufs = [[[p]]], f64_bufs = []\<rparr> 0
           [\<lparr>xmin = 0, ymin = 0, xmax = 1, ymax = 1, label = l1\<rparr>,
            \<lparr>xmin = 0, ymin = 0, xmax = 1, ymax = 1, label = l2\<rparr>]
         = Inr [[spec_blend_pixel_then c1 c2 p]]"
proof -
  let ?h = "\<lparr>u8_bufs = [[[p]]], f64_bufs = []\<rparr> :: heap"
  let ?b1 = "\<lparr>xmin = 0, ymin = 0, xmax = 1, ymax = 1, label = l1\<rparr> :: box"
  let ?b2 = "\<lparr>xmin = 0, ymin = 0, xmax = 1, ymax = 1, label = l2\<rparr> :: box"
  have "\<forall>b \<in> set [?b1, ?b2]. LABEL_COLORS (label b) \<noteq> None"
    by (simp add: assms del: not_None_eq)
  from add_boxes_image_pixels [OF this, of ?h 0]
  obtain out where out: "add_boxes_image ?h 0 [?b1, ?b2] = Inr out"
    and sh: "same_shape out (u8_bufs ?h ! 0)"
    and px: "\<forall>y < length (u8_bufs ?h ! 0). \<forall>x < length (u8_bufs ?h ! 0 ! y).
                 out ! y ! x =
                   map_pixel f64_to_uint8
                     (foldl (\<lambda>p b. blend (the (LABEL_COLORS (label b))) p)
                        (map_pixel uint8_to_f64 (u8_bufs ?h ! 0 ! y ! x))
                        (filter (\<lambda>b. covers (u8_bufs ?h ! 0) b y x) [?b1, ?b2]))"
    by blast
  have "out ! 0 ! 0 = spec_blend_pixel_then c1 c2 p"
    using px [rule_format, of 0 0] LABEL_COLORS_byte [OF assms(1)] LABEL_COLORS_byte [OF assms(2)]
    by (simp add: covers_def in_slice_def slice_bound_def assms blend_then_pixel)
  moreover have "out = [[out ! 0 ! 0]]" using sh by (intro single_pixel_image [of out p]) simp
  ultimately show ?thesis using out by simp
qed

lemma black_pixel_once:
  "add_boxes_image \<lparr>u8_bufs = [[[(0, 0, 0)]]], f64_bufs = []\<rparr> 0
     [\<lparr>xmin = 0, ymin = 0, xmax = 1, ymax = 1, label = ''car''\<rparr>] = Inr [[(127, 0, 0)]]"
  by (simp add: single_pixel_one_box [OF car_color] spec_blend_pixel_def spec_half_blend_div)

lemma black_pixel_twice:
  "add_boxes_image \<lparr>u8_bufs = [[[(0, 0, 0)]]], f64_bufs = []\<rparr> 0
     [\<lparr>xmin = 0, ymin = 0, xmax = 1, ymax = 1, label = ''car''\<rparr>,
      \<lparr>xmin = 0, ymin = 0, xmax = 1, ymax = 1, label = ''car''\<rparr>] = Inr [[(191, 0, 0)]]"
  by (simp add: single_pixel_two_boxes [OF car_color car_color] spec_blend_pixel_then_def
      spec_half_blend_then_div)

lemma car_then_truck:
  "add_boxes_image \<lparr>u8_bufs = [[[(0, 3, 255)]]], f64_bufs = []\<rparr> 0
     [\<lparr>xmin = 0, ymin = 0, xmax = 1, ymax = 1, label = ''car''\<rparr>,
      \<lparr>xmin = 0, ymin = 0, xmax = 1, ymax = 1, label = ''truck''\<rparr>] = Inr [[(63, 0, 191)]]"
  by (simp add: single_pixel_two_boxes [OF car_color truck_color] spec_blend_pixel_then_def
      spec_half_blend_then_div)

lemma truck_then_car:
  "add_boxes_image \<lparr>u8_bufs = [[[(0, 3, 255)]]], f64_bufs = []\<rparr> 0
     [\<lparr>xmin = 0, ymin = 0, xmax = 1, ymax = 1, label = ''truck''\<rparr>,
      \<lparr>xmin = 0, ymin = 0, xmax = 1, ymax = 1, label = ''car''\<rparr>] = Inr [[(127, 0, 127)]]"
  by (simp add: single_pixel_two_boxes [OF truck_color car_color] spec_blend_pixel_then_def
      spec_half_blend_then_div)

text \<open>
  Claim C4. Blends compound in table order. A pixel covered by exactly the two boxes
  \<open>b1\<close>, \<open>b2\<close> of the table, \<open>b1\<close> before \<open>b2\<close>, of colors \<open>C1\<close> and \<open>C2\<close>, ends as
  \<open>((O + C1) / 2 + C2) / 2\<close> (truncated to a byte once, at the end): the blend of the later
  box works on the value the earlier one left. For two boxes of the same color \<open>C\<close> that
  is \<open>((O + C) / 2 + C) / 2\<close>, not \<open>(O + C) / 2\<close>: on a black pixel, two boxes labelled car
  give another image than one. And the order of the table shows: a car box before a truck
  box gives another image than the truck box before the car box.
\<close>

theorem add_boxes_compounds:
  assumes "a < length (u8_bufs h)" and "\<forall>b \<in> set boxes. label b \<in> dom LABEL_COLORS"
    and "y < length (u8_bufs h ! a)" and "x < length (u8_bufs h ! a ! y)"
    and "filter (\<lambda>b. covers (u8_bufs h ! a) b y x) boxes = [b1, b2]"
    and "LABEL_COLORS (label b1) = Some c1" and "LABEL_COLORS (label b2) = Some c2"
  shows "(\<exists>out. add_boxes_image h a boxes = Inr out
            \<and> out ! y ! x = spec_blend_pixel_then c1 c2 (u8_bufs h ! a ! y ! x)
            \<and> (c1 = c2 \<longrightarrow> out ! y ! x = spec_blend_pixel_twice c1 (u8_bufs h ! a ! y ! x)))
         \<and> add_boxes_image \<lparr>u8_bufs = [[[(0, 0, 0)]]], f64_bufs = []\<rparr> 0
               [\<lparr>xmin = 0, ymin = 0, xmax = 1, ymax = 1, label = ''car''\<rparr>,
                \<lparr>xmin = 0, ymin = 0, xmax = 1, ymax = 1, label = ''car''\<rparr>]
             \<noteq> add_boxes_image \<lparr>u8_bufs = [[[(0, 0, 0)]]], f64_bufs = []\<rparr> 0
               [\<lparr>xmin = 0, ymin = 0, xmax = 1, ymax = 1, label = ''car''\<rparr>]
         \<and> add_boxes_image \<lparr>u8_bufs = [[[(0, 3, 255)]]], f64_bufs = []\<rparr> 0
               [\<lparr>xmin = 0, ymin = 0, xmax = 1, ymax = 1, label = ''car''\<rparr>,
                \<lparr>xmin = 0, ymin = 0, xmax = 1, ymax = 1, label = ''truck''\<rparr>]
             \<noteq> add_boxes_image \<lparr>u8_bufs = [[[(0, 3, 255)]]], f64_bufs = []\<rparr> 0
               [\<lparr>xmin = 0, ymin = 0, xmax = 1, ymax = 1, label = ''truck''\<rparr>,
                \<lparr>xmin = 0, ymin = 0, xmax = 1, ymax = 1, label = ''car''\<rparr>]"
proof -
  from add_boxes_image_pixels [OF all_mapped [OF assms(2)], of h a]
  obtain out where out: "add_boxes_image h a boxes = Inr out"
    "\<And>y x. y < length (u8_bufs h ! a) \<Longrightarrow> x < length (u8_bufs h ! a ! y) \<Longrightarrow>
       out ! y ! x =
         map_pixel f64_to_uint8
           (foldl (\<lambda>p b. blend (the (LABEL_COLORS (label b))) p)
              (map_pixel uint8_to_f64 (u8_bufs h ! a ! y ! x))
              (filter (\<lambda>b. covers (u8_bufs h ! a) b y x) boxes))"
    by blast
  have px: "out ! y ! x = spec_blend_pixel_then c1 c2 (u8_bufs h ! a ! y ! x)"
    using out(2) [OF assms(3,4)] assms(5,6,7) LABEL_COLORS_byte [OF assms(6)]
      LABEL_COLORS_byte [OF assms(7)]
    by (simp add: blend_then_pixel)
  then have "c1 = c2 \<longrightarrow> out ! y ! x = spec_blend_pixel_twice c1 (u8_bufs h ! a ! y ! x)"
    by (simp add: spec_blend_pixel_then_same)
  with px out(1) have
    "\<exists>out. add_boxes_image h a boxes = Inr out
       \<and> out ! y ! x = spec_blend_pixel_then c1 c2 (u8_bufs h ! a ! y ! x)
       \<and> (c1 = c2 \<longrightarrow> out ! y ! x = spec_blend_pixel_twice c1 (u8_bufs h ! a ! y ! x))"
    by blast
  then show ?thesis
    by (simp only: black_pixel_once black_pixel_twice car_then_truck truck_then_car) simp
qed

theorem add_boxes_compounds_witness:
  "(\<exists>out. add_boxes_image \<lparr>u8_bufs = [[[(0, 3, 255), (7, 7, 7)]]], f64_bufs = []\<rparr> 0
            [\<lparr>xmin = 0, ymin = 0, xmax = 1, ymax = 1, label = ''car''\<rparr>,
             \<lparr>xmin = 1, ymin = 0, xmax = 2, ymax = 1, label = ''biker''\<rparr>,
             \<lparr>xmin = - 2, ymin = 0, xmax = 7, ymax = 1, label = ''truck''\<rparr>] = Inr out
         \<and> out ! 0 ! 0 = (63, 0, 191))
   \<and> (\<exists>out. add_boxes_image \<lparr>u8_bufs = [[[(0, 3, 255), (7, 7, 7)]]], f64_bufs = []\<rparr> 0
            [\<lparr>xmin = 0, ymin = 0, xmax = 1, ymax = 1, label = ''car''\<rparr>,
             \<lparr>xmin = 1, ymin = 0, xmax = 2, ymax = 1, label = ''biker''\<rparr>,
             \<lparr>xmin = - 2, ymin = 0, xmax = 7, ymax = 1, label = ''car''\<rparr>] = Inr out
         \<and> out ! 0 ! 0 = (191, 0, 63))"
proof -
  let ?h = "\<lparr>u8_bufs = [[[(0, 3, 255), (7, 7, 7)]]], f64_bufs = []\<rparr> :: heap"
  let ?b1 = "\<lparr>xmin = 0, ymin = 0, xmax = 1, ymax = 1, label = ''car''\<rparr> :: box"
  let ?b2 = "\<lparr>xmin = 1, ymin = 0, xmax = 2, ymax = 1, label = ''biker''\<rparr> :: box"
  let ?b3 = "\<lparr>xmin = - 2, ymin = 0, xmax = 7, ymax = 1, label = ''truck''\<rparr> :: box"
  let ?b4 = "\<lparr>xmin = - 2, ymin = 0, xmax = 7, ymax = 1, label = ''car''\<rparr> :: box"
  have biker: "LABEL_COLORS ''biker'' = Some (255, 0, 255)" by (simp add: LABEL_COLORS_def)
  have 1: "0 < length (u8_bufs ?h)" by simp
  have 2: "\<forall>b \<in> set [?b1, ?b2, ?b3]. label b \<in> dom LABEL_COLORS"
    using car_color truck_color biker by auto
  have m2: "\<forall>b \<in> set [?b1, ?b2, ?b4]. label b \<in> dom LABEL_COLORS"
    using car_color biker by auto
  have 3: "0 < length (u8_bufs ?h ! 0)" by simp
  have 4: "0 < length (u8_bufs ?h ! 0 ! 0)" by simp
  have 5: "filter (\<lambda>b. covers (u8_bufs ?h ! 0) b 0 0) [?b1, ?b2, ?b3] = [?b1, ?b3]"
    by (simp add: covers_def in_slice_def slice_bound_def)
  have m5: "filter (\<lambda>b. covers (u8_bufs ?h ! 0) b 0 0) [?b1, ?b2, ?b4] = [?b1, ?b4]"
    by (simp add: covers_def in_slice_def slice_bound_def)
  have 6: "LABEL_COLORS (label ?b1) = Some (255, 0, 0)" by (simp add: car_color)
  have 7: "LABEL_COLORS (label ?b3) = Some (0, 0, 255)" by (simp add: truck_color)
  have m7: "LABEL_COLORS (label ?b4) = Some (255, 0, 0)" by (simp add: car_color)
  from add_boxes_compounds [OF 1 2 3 4 5 6 7, THEN conjunct1]
  obtain out where out: "add_boxes_image ?h 0 [?b1, ?b2, ?b3] = Inr out"
    and px: "out ! 0 ! 0 = spec_blend_pixel_then (255, 0, 0) (0, 0, 255) (u8_bufs ?h ! 0 ! 0 ! 0)"
    by blast
  from px have "out ! 0 ! 0 = (63, 0, 191)"
    by (simp add: spec_blend_pixel_then_def spec_half_blend_then_div)
  with out have A: "\<exists>out. add_boxes_image ?h 0 [?b1, ?b2, ?b3] = Inr out \<and> out ! 0 ! 0 = (63, 0, 191)"
    by blast
  from add_boxes_compounds [OF 1 m2 3 4 m5 6 m7, THEN conjunct1]
  obtain out' where out': "add_boxes_image ?h 0 [?b1, ?b2, ?b4] = Inr out'"
    and px': "out' ! 0 ! 0 = spec_blend_pixel_twice (255, 0, 0) (u8_bufs ?h ! 0 ! 0 ! 0)"
    by blast
  from px' have "out' ! 0 ! 0 = (191, 0, 63)"
    by (simp add: spec_blend_pixel_twice_def spec_half_blend_twice_div)
  with out' have B: "\<exists>out. add_boxes_image ?h 0 [?b1, ?b2, ?b4] = Inr out \<and> out ! 0 ! 0 = (191, 0, 63)"
    by blast
  from A B show ?thesis by blast
qed

text \<open>
  Claim C5. \<^verbatim>\<open>add_boxes\<close> leaves every buffer that existed before the call as it was, the
  input image at \<open>a\<close> among them, whatever the box table; the image it returns is a new
  buffer, at an address that did not exist before.
\<close>

theorem add_boxes_keeps_input:
  assumes "a < length (u8_bufs h)"
  shows "take (length (u8_bufs h)) (u8_bufs (fst (add_boxes h a boxes))) = u8_bufs h
         \<and> take (length (f64_bufs h)) (f64_bufs (fst (add_boxes h a boxes))) = f64_bufs h
         \<and> u8_bufs (fst (add_boxes h a boxes)) ! a = u8_bufs h ! a
         \<and> (\<forall>r. snd (add_boxes h a boxes) = Inr r \<longrightarrow>
               r = length (u8_bufs h) \<and> r \<noteq> a \<and> r < length (u8_bufs (fst (add_boxes h a boxes))))"
  using assms by (auto simp add: add_boxes_eq nth_append split: sum.splits)

theorem add_boxes_keeps_input_witness:
  "u8_bufs (fst (add_boxes \<lparr>u8_bufs = [[[(0, 3, 255), (7, 7, 7)]]], f64_bufs = []\<rparr> 0
                   [\<lparr>xmin = 0, ymin = 0, xmax = 1, ymax = 1, label = ''car''\<rparr>])) ! 0
     = [[(0, 3, 255), (7, 7, 7)]]
   \<and> snd (add_boxes \<lparr>u8_bufs = [[[(0, 3, 255), (7, 7, 7)]]], f64_bufs = []\<rparr> 0
                   [\<lparr>xmin = 0, ymin = 0, xmax = 1, ymax = 1, label = ''car''\<rparr>]) = Inr 1"
proof -
  let ?h = "\<lparr>u8_bufs = [[[(0, 3, 255), (7, 7, 7)]]], f64_bufs = []\<rparr> :: heap"
  let ?b = "\<lparr>xmin = 0, ymin = 0, xmax = 1, ymax = 1, label = ''car''\<rparr> :: box"
  have "0 < length (u8_bufs ?h)" by simp
  note k = add_boxes_keeps_input [OF this, of "[?b]"]
  have "snd (blend_boxes (map_image uint8_to_f64 (u8_bufs ?h ! 0)) [?b]) = Inr ()"
    using blend_boxes_pixels [of "[?b]"] by (simp add: car_color)
  then have "snd (add_boxes ?h 0 [?b]) = Inr 1"
    by (simp add: add_boxes_eq)
  with k show ?thesis by simp
qed

text \<open>
  Claim C9. With an empty box table \<^verbatim>\<open>add_boxes\<close> returns an image equal to the input,
  pixel for pixel.
\<close>

theorem add_boxes_no_boxes:
  "a < length (u8_bufs h) \<Longrightarrow> add_boxes_image h a [] = Inr (u8_bufs h ! a)"
  by (simp add: add_boxes_image_def add_boxes_eq roundtrip_image)

theorem add_boxes_no_boxes_witness:
  "add_boxes_image \<lparr>u8_bufs = [[[(0, 3, 255), (7, 7, 7)]]], f64_bufs = []\<rparr> 0 []
     = Inr [[(0, 3, 255), (7, 7, 7)]]"
  using add_boxes_no_boxes [of 0 "\<lparr>u8_bufs = [[[(0, 3, 255), (7, 7, 7)]]], f64_bufs = []\<rparr>"]
  by simp

text \<open>
  Claim C10. If a box of the table carries a label that is none of the five keys of
  \<^verbatim>\<open>LABEL_COLORS\<close>, \<^verbatim>\<open>add_boxes\<close> raises KeyError and returns no image; the box is not
  skipped.
\<close>

theorem add_boxes_unmapped_label:
  assumes "a < length (u8_bufs h)" and "b \<in> set boxes"
    and "label b \<notin> {''car'', ''pedestrian'', ''truck'', ''trafficLight'', ''biker''}"
  shows "snd (add_boxes h a boxes) = Inl KeyError \<and> add_boxes_image h a boxes = Inl KeyError"
proof -
  have "LABEL_COLORS (label b) = None"
    using assms(3) unfolding LABEL_COLORS_dom [symmetric] by blast
  then have "\<exists>b \<in> set boxes. LABEL_COLORS (label b) = None" using assms(2) by blast
  then have "snd (blend_boxes (map_image uint8_to_f64 (u8_bufs h ! a)) boxes) = Inl KeyError"
    by (rule blend_boxes_error)
  then show ?thesis by (simp add: add_boxes_image_def add_boxes_eq)
qed

theorem add_boxes_unmapped_label_witness:
  "add_boxes_image \<lparr>u8_bufs = [[[(0, 3, 255), (7, 7, 7)]]], f64_bufs = []\<rparr> 0
     [\<lparr>xmin = 0, ymin = 0, xmax = 1, ymax = 1, label = ''car''\<rparr>,
      \<lparr>xmin = 0, ymin = 0, xmax = 1, ymax = 1, label = ''bus''\<rparr>] = Inl KeyError"
  using add_boxes_unmapped_label
          [of 0 "\<lparr>u8_bufs = [[[(0, 3, 255), (7, 7, 7)]]], f64_bufs = []\<rparr>"
              "\<lparr>xmin = 0, ymin = 0, xmax = 1, ymax = 1, label = ''bus''\<rparr>"
              "[\<lparr>xmin = 0, ymin = 0, xmax = 1, ymax = 1, label = ''car''\<rparr>,
                \<lparr>xmin = 0, ymin = 0, xmax = 1, ymax = 1, label = ''bus''\<rparr>]"]
  by simp

section \<open>Properties of the weights download\<close>

lemma f64_round_one: "f64_round 1 = 1"
  using f64_round_int [of 1] by simp

lemma progress_fraction_full:
  assumes "0 < N"
  shows "progress_fraction (int N) N = 1"
proof -
  define X where "X = f64_round (rat_of_int (int N))"
  have "(1::rat) \<le> rat_of_int (int N)" using assms by simp
  then have X: "0 < X" unfolding X_def by (rule f64_round_pos)
  have "f64_round X = X" unfolding X_def by (rule f64_round_idem) simp
  then have "f64_div (f64_mul 1 (f64_of_int (int N))) (f64_of_int (int N)) = f64_round (X / X)"
    by (simp add: f64_div_def f64_mul_def f64_of_int_def X_def)
  also have "\<dots> = 1" using X by (simp add: f64_round_one)
  finally show ?thesis by (simp add: progress_fraction_def)
qed

lemma progress_fraction_small:
  assumes "0 < N" "N < 2 ^ 53" "c \<le> N"
  shows "progress_fraction (int N) c = min 1 (f64_round (of_nat c / of_nat N))"
proof -
  have n: "\<bar>int N\<bar> < 2 ^ 53" and c: "\<bar>int c\<bar> < 2 ^ 53" using assms by simp_all
  have "f64_of_int (int N) = of_nat N" "f64_of_int (int c) = of_nat c"
    using f64_round_int [OF n] f64_round_int [OF c] by (simp_all add: f64_of_int_def)
  moreover have "f64_round (of_nat c) = of_nat c"
    using f64_round_int [OF c] by simp
  ultimately show ?thesis
    by (simp add: progress_fraction_def f64_div_def f64_mul_def min_def Let_def)
qed

lemma progress_fraction_nonneg:
  assumes "0 < len"
  shows "0 \<le> progress_fraction len counter"
proof -
  have c: "0 \<le> f64_of_int (int counter)"
    unfolding f64_of_int_def by (rule f64_round_nonneg) simp
  have "0 \<le> f64_mul 1 (f64_of_int (int counter))"
    unfolding f64_mul_def using c by (intro f64_round_nonneg) simp
  moreover have "0 \<le> f64_of_int len"
    unfolding f64_of_int_def using assms by (intro f64_round_nonneg) simp
  ultimately have "0 \<le> f64_div (f64_mul 1 (f64_of_int (int counter))) (f64_of_int len)"
    unfolding f64_div_def by (intro f64_round_nonneg) simp
  then show ?thesis by (simp add: progress_fraction_def Let_def)
qed

lemma not_too_large_mono:
  "int M < f64_overflow_threshold \<Longrightarrow> c \<le> M \<Longrightarrow> \<not> int_too_large (int c)"
  by (simp add: int_too_large_def)

lemma not_too_large_pos:
  "0 < len \<Longrightarrow> len < f64_overflow_threshold \<Longrightarrow> \<not> int_too_large len"
  by (simp add: int_too_large_def)

lemma progress_updates_append:
  "progress_updates (xs @ ys) = progress_updates xs @ progress_updates ys"
  by (induction xs rule: progress_updates.induct) simp_all

lemma progress_updates_map: "progress_updates (map Progress vs) = vs"
  by (induction vs) simp_all

lemma take_chunk_empty: "take 8192 rest = [] \<longleftrightarrow> rest = []"
  by (cases rest) simp_all

lemma download_loop_trace:
  "\<exists>evs. trace (fst (download_loop len rest counter w)) = trace w @ evs"
proof (induction "length rest" arbitrary: rest counter w rule: less_induct)
  case less
  let ?data = "take 8192 rest"
  let ?c = "counter + length ?data"
  let ?w1 = "emit (Progress (progress_fraction len ?c)) w"
  let ?w2 = "?w1\<lparr>weights_file :=
               Some (case weights_file ?w1 of None \<Rightarrow> ?data | Some c \<Rightarrow> c @ ?data)\<rparr>"
  show ?case
  proof (cases "?data = [] \<or> int_too_large (int ?c) \<or> int_too_large len \<or> len = 0
                \<or> progress_fraction len ?c < 0")
    case True
    then have "fst (download_loop len rest counter w) = w"
      by (subst download_loop.simps) (auto simp: Let_def)
    then show ?thesis by simp
  next
    case False
    then have ne: "rest \<noteq> []" by auto
    have step: "download_loop len rest counter w = download_loop len (drop 8192 rest) ?c ?w2"
      using False by (subst download_loop.simps) (simp add: Let_def)
    have "length (drop 8192 rest) < length rest" using ne by simp
    then obtain evs where
      "trace (fst (download_loop len (drop 8192 rest) ?c ?w2)) = trace ?w2 @ evs"
      using less.hyps by blast
    then have "trace (fst (download_loop len rest counter w))
               = trace w @ Progress (progress_fraction len ?c) # evs"
      unfolding step by (simp add: emit_def)
    then show ?thesis by blast
  qed
qed

lemma download_loop_run:
  assumes "0 < len" and "len < f64_overflow_threshold"
    and "int (counter + length rest) < f64_overflow_threshold"
    and "weights_file w = Some content"
  shows "download_loop len rest counter w =
           (w\<lparr>trace := trace w @ map Progress (progress_reports len rest counter),
              weights_file := Some (content @ rest)\<rparr>, Inr ())"
  using assms(3,4)
proof (induction "length rest" arbitrary: rest counter w content rule: less_induct)
  case less
  show ?case
  proof (cases "rest = []")
    case True
    then show ?thesis
      using less.prems
      by (simp add: download_loop.simps [of len "[]"] progress_reports.simps [of len "[]"])
  next
    case False
    let ?data = "take 8192 rest"
    let ?c = "counter + length ?data"
    let ?w2 = "w\<lparr>trace := trace w @ [Progress (progress_fraction len ?c)],
                 weights_file := Some (content @ ?data)\<rparr>"
    have ne: "?data \<noteq> []" using False by (simp add: take_chunk_empty)
    have "?c \<le> counter + length rest" by simp
    with less.prems(1) have c_ok: "\<not> int_too_large (int ?c)" by (rule not_too_large_mono)
    have len_ok: "\<not> int_too_large len" using assms(1,2) by (rule not_too_large_pos)
    have len_ne: "len \<noteq> 0" using assms(1) by simp
    have nonneg: "\<not> progress_fraction len ?c < 0"
      using progress_fraction_nonneg [OF assms(1), of ?c] by simp
    have f1: "weights_file (emit (Progress (progress_fraction len ?c)) w) = Some content"
      using less.prems(2) by (simp add: emit_def)
    have w2: "(emit (Progress (progress_fraction len ?c)) w)
                \<lparr>weights_file := Some (content @ ?data)\<rparr> = ?w2"
      by (simp add: emit_def)
    have step: "download_loop len rest counter w = download_loop len (drop 8192 rest) ?c ?w2"
      using ne c_ok len_ok len_ne nonneg
      by (subst download_loop.simps) (simp only: Let_def f1 w2 if_False option.case)
    have shorter: "length (drop 8192 rest) < length rest" using False by simp
    have total: "int (?c + length (drop 8192 rest)) < f64_overflow_threshold"
    proof -
      have "length ?data + length (drop 8192 rest) = length rest"
        by (simp only: length_append [symmetric] append_take_drop_id)
      then have "?c + length (drop 8192 rest) = counter + length rest" by simp
      then show ?thesis using less.prems(1) by simp
    qed
    have f2: "weights_file ?w2 = Some (content @ ?data)" by simp
    have IH: "download_loop len (drop 8192 rest) ?c ?w2 =
           (?w2\<lparr>trace := trace ?w2 @ map Progress (progress_reports len (drop 8192 rest) ?c),
              weights_file := Some ((content @ ?data) @ drop 8192 rest)\<rparr>, Inr ())"
      using shorter total f2 by (rule less.hyps)
    have pr: "progress_reports len rest counter =
                progress_fraction len ?c # progress_reports len (drop 8192 rest) ?c"
      using False by (subst progress_reports.simps) simp
    have cat: "(content @ ?data) @ drop 8192 rest = content @ rest"
      by simp
    show ?thesis
      unfolding step IH pr cat by simp
  qed
qed

lemma min_shift: "(n::nat) \<le> L \<Longrightarrow> n + min m (L - n) = min (n + m) L"
  by (simp add: min_def) linarith

lemma chunks_step_gen:
  assumes "0 < (n::nat)" "0 < L"
  shows "Suc ((L - n + (n - 1)) div n) = (L + (n - 1)) div n"
proof (cases "L \<le> n")
  case True
  have "(L + (n - 1)) div n = 1"
    using assms True by (intro div_nat_eqI) simp_all
  moreover have "(L - n + (n - 1)) div n = 0" using assms True by simp
  ultimately show ?thesis by simp
next
  case False
  then have "L - n + (n - 1) = L + (n - 1) - n" by simp
  moreover have "(L + (n - 1)) div n = Suc ((L + (n - 1) - n) div n)"
    using assms False by (intro le_div_geq) simp_all
  ultimately show ?thesis by simp
qed

lemma chunks_pos_gen:
  assumes "0 < (n::nat)" "0 < L"
  shows "0 < (L + (n - 1)) div n"
  using chunks_step_gen [OF assms] by simp

lemma chunks_cover_gen:
  assumes "0 < (n::nat)"
  shows "L \<le> n * ((L + (n - 1)) div n)"
proof -
  have "L + (n - 1) = n * ((L + (n - 1)) div n) + (L + (n - 1)) mod n" by simp
  moreover have "(L + (n - 1)) mod n \<le> n - 1" using assms by (simp add: less_Suc_eq_le [symmetric])
  ultimately show ?thesis by linarith
qed

lemma chunks_step: "0 < (L::nat) \<Longrightarrow> Suc ((L - 8192 + 8191) div 8192) = (L + 8191) div 8192"
  using chunks_step_gen [of 8192 L] by simp

lemma chunks_pos: "0 < L \<Longrightarrow> 0 < (L + 8191) div (8192::nat)"
  using chunks_pos_gen [of 8192 L] by simp

lemma chunks_cover: "(L::nat) \<le> 8192 * ((L + 8191) div 8192)"
  using chunks_cover_gen [of 8192 L] by simp


lemma length_progress_reports:
  "length (progress_reports len rest counter) = (length rest + 8191) div 8192"
proof (induction len rest counter rule: progress_reports.induct)
  case (1 len rest counter)
  show ?case
  proof (cases "rest = []")
    case True
    then show ?thesis by (simp add: progress_reports.simps [of len "[]"])
  next
    case False
    then have pos: "0 < length rest" by simp
    have "length (progress_reports len rest counter)
          = Suc ((length rest - 8192 + 8191) div 8192)"
      using False "1.IH" by (subst progress_reports.simps) simp
    also have "\<dots> = (length rest + 8191) div 8192"
      using pos by (rule chunks_step)
    finally show ?thesis .
  qed
qed

lemma nth_progress_reports:
  "i < length (progress_reports len rest counter) \<Longrightarrow>
   progress_reports len rest counter ! i
     = progress_fraction len (counter + min (8192 * (i + 1)) (length rest))"
proof (induction len rest counter arbitrary: i rule: progress_reports.induct)
  case (1 len rest counter)
  have ne: "rest \<noteq> []"
    using "1.prems" by (auto simp: progress_reports.simps [of len "[]"])
  have pr: "progress_reports len rest counter =
              progress_fraction len (counter + length (take 8192 rest))
              # progress_reports len (drop 8192 rest) (counter + length (take 8192 rest))"
    using ne by (subst progress_reports.simps) simp
  show ?case
  proof (cases i)
    case 0
    then show ?thesis by (simp add: pr min.commute)
  next
    case (Suc j)
    have j: "j < length (progress_reports len (drop 8192 rest) (counter + length (take 8192 rest)))"
      using "1.prems" Suc by (simp add: pr)
    then have "drop 8192 rest \<noteq> []"
      by (auto simp: progress_reports.simps [of len "[]"])
    then have long: "8192 < length rest" by simp
    have "progress_reports len rest counter ! i
          = progress_reports len (drop 8192 rest) (counter + length (take 8192 rest)) ! j"
      by (simp add: pr Suc)
    also have "\<dots> = progress_fraction len
                       (counter + length (take 8192 rest) + min (8192 * (j + 1)) (length (drop 8192 rest)))"
      using ne j by (rule "1.IH")
    also have "counter + length (take 8192 rest) + min (8192 * (j + 1)) (length (drop 8192 rest))
               = counter + min (8192 * (i + 1)) (length rest)"
    proof -
      have t: "length (take 8192 rest) = 8192" using long by simp
      have "8192 + min (8192 * (j + 1)) (length rest - 8192) = min (8192 + 8192 * (j + 1)) (length rest)"
        using long by (intro min_shift) simp
      moreover have "8192 * (i + 1) = 8192 + 8192 * (j + 1)" using Suc by simp
      ultimately show ?thesis by (simp only: t length_drop add.assoc)
    qed
    finally show ?thesis .
  qed
qed

lemma last_progress_reports:
  assumes "rest \<noteq> []"
  shows "last (progress_reports len rest counter) = progress_fraction len (counter + length rest)"
proof -
  let ?n = "(length rest + 8191) div 8192"
  have pos: "0 < length rest" using assms by simp
  have n: "length (progress_reports len rest counter) = ?n" by (rule length_progress_reports)
  have npos: "0 < ?n" using pos by (rule chunks_pos)
  then have nonempty: "progress_reports len rest counter \<noteq> []" using n by auto
  have "last (progress_reports len rest counter) = progress_reports len rest counter ! (?n - 1)"
    using nonempty by (simp add: last_conv_nth n)
  also have "\<dots> = progress_fraction len (counter + min (8192 * (?n - 1 + 1)) (length rest))"
    using npos n by (intro nth_progress_reports) simp
  also have "min (8192 * (?n - 1 + 1)) (length rest) = length rest"
    using chunks_cover [of "length rest"] npos by (simp add: min_def)
  finally show ?thesis .
qed

lemma check_weights_hash_result:
  "snd (check_weights_hash env w) \<longleftrightarrow>
     (\<exists>c. weights_file w = Some c \<and> md5_hexdigest env c = WEIGTHS_MD5)"
  by (simp add: check_weights_hash_def split: option.splits)

lemma check_weights_hash_world:
  "fst (check_weights_hash env w) =
     w\<lparr>trace := trace w @ (if weights_file w = None then [] else [Stdout])\<rparr>"
  by (simp add: check_weights_hash_def emit_def split: option.splits)

lemma download_weights_skip:
  assumes "snd (check_weights_hash env w)"
  shows "download_weights env w =
           (w\<lparr>trace := trace w @ (if weights_file w = None then [] else [Stdout])\<rparr>, Inr ())"
  using assms check_weights_hash_world [of env w]
  by (simp add: download_weights_def case_prod_unfold)

lemma download_weights_opens:
  assumes "\<not> snd (check_weights_hash env w)"
  shows "\<exists>evs. trace (fst (download_weights env w)) =
           trace w @ (if weights_file w = None then [] else [Stdout]) @ [Spinner, ProgressBar, UrlOpen] @ evs"
proof (cases "weights_remote env")
  case (Inl e)
  then show ?thesis
    using assms check_weights_hash_world [of env w]
    by (simp add: download_weights_def case_prod_unfold Let_def emit_def)
next
  case (Inr resp)
  show ?thesis
  proof (cases "content_length resp")
    case None
    then show ?thesis
      using assms Inr check_weights_hash_world [of env w]
      by (simp add: download_weights_def case_prod_unfold Let_def emit_def)
  next
    case (Some len)
    let ?w4 = "emit Stdout (emit UrlOpen ((emit ProgressBar (emit Spinner (fst (check_weights_hash env w))))\<lparr>weights_file := Some []\<rparr>))"
    have dw: "download_weights env w = download_loop len (body resp) 0 ?w4"
      using assms Inr Some by (simp add: download_weights_def case_prod_unfold Let_def)
    have tr4: "trace ?w4 = trace w @ (if weights_file w = None then [] else [Stdout])
                 @ [Spinner, ProgressBar, UrlOpen] @ [Stdout]"
      by (simp add: check_weights_hash_world emit_def)
    from download_loop_trace [of len "body resp" 0 ?w4] obtain evs where
      "trace (fst (download_loop len (body resp) 0 ?w4)) = trace ?w4 @ evs"
      by blast
    then have "trace (fst (download_weights env w)) =
                 trace w @ (if weights_file w = None then [] else [Stdout])
                 @ [Spinner, ProgressBar, UrlOpen] @ (Stdout # evs)"
      unfolding dw tr4 by simp
    then show ?thesis by blast
  qed
qed

lemma download_weights_run:
  assumes "\<not> snd (check_weights_hash env w)" and "weights_remote env = Inr resp"
    and "content_length resp = Some len" and "0 < len" and "len < f64_overflow_threshold"
    and "int (length (body resp)) < f64_overflow_threshold"
  shows "download_weights env w =
           (w\<lparr>trace := trace w @ (if weights_file w = None then [] else [Stdout])
                   @ [Spinner, ProgressBar, UrlOpen, Stdout]
                   @ map Progress (progress_reports len (body resp) 0),
              weights_file := Some (body resp)\<rparr>, Inr ())"
proof -
  let ?w4 = "emit Stdout (emit UrlOpen ((emit ProgressBar (emit Spinner (fst (check_weights_hash env w))))\<lparr>weights_file := Some []\<rparr>))"
  have dw: "download_weights env w = download_loop len (body resp) 0 ?w4"
    using assms(1,2,3) by (simp add: download_weights_def case_prod_unfold Let_def)
  have f4: "weights_file ?w4 = Some []" by (simp add: emit_def)
  have b: "int (0 + length (body resp)) < f64_overflow_threshold" using assms(6) by simp
  show ?thesis
    unfolding dw download_loop_run [OF assms(4,5) b f4]
    by (simp add: check_weights_hash_world emit_def)
qed

lemma new_events_append: "trace w' = trace w @ evs \<Longrightarrow> new_events w w' = evs"
  by (simp add: new_events_def)

text \<open>
  Claim C6. The check of \<^verbatim>\<open>check_weights_hash\<close> passes exactly when the weights file exists
  and the checksum of its whole content is the known one. When it passes,
  \<^verbatim>\<open>download_weights\<close> returns at once: the file is as before and the URL is not opened.
  When it fails, whether the file is absent or has another checksum, the URL is opened;
  and when the server answers with a declared length above zero, that length and the
  length of the body small enough to convert to floats, the download runs to its end and
  the file ends holding the whole body, whatever it held before.
\<close>

theorem download_iff_check_fails:
  "(snd (check_weights_hash env w) \<longleftrightarrow>
      (\<exists>c. weights_file w = Some c \<and> md5_hexdigest env c = WEIGTHS_MD5))
   \<and> (if snd (check_weights_hash env w)
      then snd (download_weights env w) = Inr ()
           \<and> weights_file (fst (download_weights env w)) = weights_file w
           \<and> UrlOpen \<notin> set (new_events w (fst (download_weights env w)))
      else UrlOpen \<in> set (new_events w (fst (download_weights env w)))
           \<and> (\<forall>resp len. weights_remote env = Inr resp \<longrightarrow> content_length resp = Some len
                 \<longrightarrow> 0 < len \<longrightarrow> len < f64_overflow_threshold
                 \<longrightarrow> int (length (body resp)) < f64_overflow_threshold
                 \<longrightarrow> snd (download_weights env w) = Inr ()
                     \<and> weights_file (fst (download_weights env w)) = Some (body resp)))"
proof (cases "snd (check_weights_hash env w)")
  case True
  have "new_events w (fst (download_weights env w)) = (if weights_file w = None then [] else [Stdout])"
    by (rule new_events_append) (simp add: download_weights_skip [OF True])
  then show ?thesis
    using True by (simp add: check_weights_hash_result download_weights_skip [OF True])
next
  case False
  from download_weights_opens [OF False] obtain evs where
    "trace (fst (download_weights env w)) =
       trace w @ (if weights_file w = None then [] else [Stdout]) @ [Spinner, ProgressBar, UrlOpen] @ evs"
    by blast
  then have "new_events w (fst (download_weights env w)) =
       (if weights_file w = None then [] else [Stdout]) @ [Spinner, ProgressBar, UrlOpen] @ evs"
    by (rule new_events_append)
  then have opened: "UrlOpen \<in> set (new_events w (fst (download_weights env w)))" by simp
  have "snd (download_weights env w) = Inr ()
        \<and> weights_file (fst (download_weights env w)) = Some (body resp)"
    if "weights_remote env = Inr resp" "content_length resp = Some len" "0 < len"
      "len < f64_overflow_threshold" "int (length (body resp)) < f64_overflow_threshold"
    for resp len
    by (simp add: download_weights_run [OF False that])
  then show ?thesis
    using False opened check_weights_hash_result [of env w] by auto
qed

theorem download_iff_check_fails_witness:
  "snd (download_weights
     \<lparr>md5_hexdigest = (\<lambda>c. WEIGTHS_MD5), weights_remote = Inl URLError,
      labels_remote = Inl URLError, image_remote = (\<lambda>u. Inl URLError),
      yolo_v3 = (\<lambda>i c d. Inl URLError), ui_label = [], ui_range = (10, 20),
      ui_frame_index = 0, ui_run_yolo = False, ui_confidence = 1 / 2, ui_overlap = 3 / 10\<rparr>
     \<lparr>weights_file = Some [1], store = \<lparr>u8_bufs = [], f64_bufs = []\<rparr>, trace = []\<rparr>) = Inr ()
   \<and> UrlOpen \<notin> set (new_events
     \<lparr>weights_file = Some [1], store = \<lparr>u8_bufs = [], f64_bufs = []\<rparr>, trace = []\<rparr>
     (fst (download_weights
     \<lparr>md5_hexdigest = (\<lambda>c. WEIGTHS_MD5), weights_remote = Inl URLError,
      labels_remote = Inl URLError, image_remote = (\<lambda>u. Inl URLError),
      yolo_v3 = (\<lambda>i c d. Inl URLError), ui_label = [], ui_range = (10, 20),
      ui_frame_index = 0, ui_run_yolo = False, ui_confidence = 1 / 2, ui_overlap = 3 / 10\<rparr>
     \<lparr>weights_file = Some [1], store = \<lparr>u8_bufs = [], f64_bufs = []\<rparr>, trace = []\<rparr>)))
   \<and> UrlOpen \<in> set (new_events
     \<lparr>weights_file = Some [1], store = \<lparr>u8_bufs = [], f64_bufs = []\<rparr>, trace = []\<rparr>
     (fst (download_weights
     \<lparr>md5_hexdigest = (\<lambda>c. []), weights_remote = Inr \<lparr>content_length = Some 2, body = [7, 8]\<rparr>,
      labels_remote = Inl URLError, image_remote = (\<lambda>u. Inl URLError),
      yolo_v3 = (\<lambda>i c d. Inl URLError), ui_label = [], ui_range = (10, 20),
      ui_frame_index = 0, ui_run_yolo = False, ui_confidence = 1 / 2, ui_overlap = 3 / 10\<rparr>
     \<lparr>weights_file = Some [1], store = \<lparr>u8_bufs = [], f64_bufs = []\<rparr>, trace = []\<rparr>)))
   \<and> weights_file (fst (download_weights
     \<lparr>md5_hexdigest = (\<lambda>c. []), weights_remote = Inr \<lparr>content_length = Some 2, body = [7, 8]\<rparr>,
      labels_remote = Inl URLError, image_remote = (\<lambda>u. Inl URLError),
      yolo_v3 = (\<lambda>i c d. Inl URLError), ui_label = [], ui_range = (10, 20),
      ui_frame_index = 0, ui_run_yolo = False, ui_confidence = 1 / 2, ui_overlap = 3 / 10\<rparr>
     \<lparr>weights_file = Some [1], store = \<lparr>u8_bufs = [], f64_bufs = []\<rparr>, trace = []\<rparr>)) = Some [7, 8]"
  using download_iff_check_fails
          [of "\<lparr>md5_hexdigest = (\<lambda>c. WEIGTHS_MD5), weights_remote = Inl URLError,
      labels_remote = Inl URLError, image_remote = (\<lambda>u. Inl URLError),
      yolo_v3 = (\<lambda>i c d. Inl URLError), ui_label = [], ui_range = (10, 20),
      ui_frame_index = 0, ui_run_yolo = False, ui_confidence = 1 / 2, ui_overlap = 3 / 10\<rparr>"
              "\<lparr>weights_file = Some [1], store = \<lparr>u8_bufs = [], f64_bufs = []\<rparr>, trace = []\<rparr>"]
        download_iff_check_fails
          [of "\<lparr>md5_hexdigest = (\<lambda>c. []), weights_remote = Inr \<lparr>content_length = Some 2, body = [7, 8]\<rparr>,
      labels_remote = Inl URLError, image_remote = (\<lambda>u. Inl URLError),
      yolo_v3 = (\<lambda>i c d. Inl URLError), ui_label = [], ui_range = (10, 20),
      ui_frame_index = 0, ui_run_yolo = False, ui_confidence = 1 / 2, ui_overlap = 3 / 10\<rparr>"
              "\<lparr>weights_file = Some [1], store = \<lparr>u8_bufs = [], f64_bufs = []\<rparr>, trace = []\<rparr>"]
  by (simp add: check_weights_hash_def WEIGTHS_MD5_def f64_overflow_threshold_def)

text \<open>
  Claim C7, amended. In a download that takes place, of a body of \<open>N > 0\<close> bytes whose
  length the server declares, \<open>N\<close> small enough to convert to a float
  (\<open>N < 2 ^ 1024 - 2 ^ 970\<close>), read in chunks of 8192 bytes, the progress bar is updated
  \<open>\<lceil>N / 8192\<rceil>\<close> times. Update \<open>i\<close> (from 0) reports the bytes received so far,
  \<open>min (8192 * (i + 1)) N\<close>, divided by \<open>N\<close> in float arithmetic and clamped to at most 1;
  for \<open>N < 2 ^ 53\<close> that is the float nearest to the exact quotient. The last update is 1.
\<close>

theorem download_progress_updates:
  assumes "\<not> snd (check_weights_hash env w)" and "weights_remote env = Inr resp"
    and "content_length resp = Some (int N)" and "length (body resp) = N" and "0 < N"
    and "int N < f64_overflow_threshold"
  shows "length (progress_updates (new_events w (fst (download_weights env w)))) = (N + 8191) div 8192
       \<and> (\<forall>i < (N + 8191) div 8192.
             progress_updates (new_events w (fst (download_weights env w))) ! i
               = progress_fraction (int N) (min (8192 * (i + 1)) N))
       \<and> last (progress_updates (new_events w (fst (download_weights env w)))) = 1
       \<and> (N < 2 ^ 53 \<longrightarrow>
            (\<forall>i < (N + 8191) div 8192.
               progress_updates (new_events w (fst (download_weights env w))) ! i
                 = min 1 (f64_round (of_nat (min (8192 * (i + 1)) N) / of_nat N))))"
proof -
  let ?ups = "progress_updates (new_events w (fst (download_weights env w)))"
  have len: "0 < int N" using assms(5) by simp
  have bl: "int (length (body resp)) < f64_overflow_threshold" using assms(4,6) by simp
  have ne: "body resp \<noteq> []" using assms(4,5) by auto
  have "new_events w (fst (download_weights env w)) =
          (if weights_file w = None then [] else [Stdout]) @ [Spinner, ProgressBar, UrlOpen, Stdout]
          @ map Progress (progress_reports (int N) (body resp) 0)"
    by (rule new_events_append) (simp add: download_weights_run [OF assms(1,2,3) len assms(6) bl])
  then have ups: "?ups = progress_reports (int N) (body resp) 0"
    by (simp add: progress_updates_append progress_updates_map)
  have n: "length ?ups = (N + 8191) div 8192"
    unfolding ups by (simp add: length_progress_reports assms(4))
  have nth: "?ups ! i = progress_fraction (int N) (min (8192 * (i + 1)) N)"
    if "i < (N + 8191) div 8192" for i
    using that n nth_progress_reports [of i "int N" "body resp" 0]
    by (simp add: ups assms(4))
  have "last ?ups = progress_fraction (int N) N"
    unfolding ups using last_progress_reports [OF ne, of "int N" 0] by (simp add: assms(4))
  then have fin: "last ?ups = 1" using assms(5) by (simp add: progress_fraction_full)
  have small: "?ups ! i = min 1 (f64_round (of_nat (min (8192 * (i + 1)) N) / of_nat N))"
    if "N < 2 ^ 53" "i < (N + 8191) div 8192" for i
    using nth [OF that(2)] progress_fraction_small [OF assms(5) that(1), of "min (8192 * (i + 1)) N"]
    by simp
  show ?thesis using n nth fin small by blast
qed

theorem download_progress_updates_witness:
  "length (progress_updates (new_events
     \<lparr>weights_file = None, store = \<lparr>u8_bufs = [], f64_bufs = []\<rparr>, trace = []\<rparr>
     (fst (download_weights
     \<lparr>md5_hexdigest = (\<lambda>c. []),
      weights_remote = Inr \<lparr>content_length = Some 8193, body = replicate 8193 0\<rparr>,
      labels_remote = Inl URLError, image_remote = (\<lambda>u. Inl URLError),
      yolo_v3 = (\<lambda>i c d. Inl URLError), ui_label = [], ui_range = (10, 20),
      ui_frame_index = 0, ui_run_yolo = False, ui_confidence = 1 / 2, ui_overlap = 3 / 10\<rparr>
     \<lparr>weights_file = None, store = \<lparr>u8_bufs = [], f64_bufs = []\<rparr>, trace = []\<rparr>)))) = 2
   \<and> progress_updates (new_events
     \<lparr>weights_file = None, store = \<lparr>u8_bufs = [], f64_bufs = []\<rparr>, trace = []\<rparr>
     (fst (download_weights
     \<lparr>md5_hexdigest = (\<lambda>c. []),
      weights_remote = Inr \<lparr>content_length = Some 8193, body = replicate 8193 0\<rparr>,
      labels_remote = Inl URLError, image_remote = (\<lambda>u. Inl URLError),
      yolo_v3 = (\<lambda>i c d. Inl URLError), ui_label = [], ui_range = (10, 20),
      ui_frame_index = 0, ui_run_yolo = False, ui_confidence = 1 / 2, ui_overlap = 3 / 10\<rparr>
     \<lparr>weights_file = None, store = \<lparr>u8_bufs = [], f64_bufs = []\<rparr>, trace = []\<rparr>))) ! 0 = min 1 (f64_round (8192 / 8193))
   \<and> last (progress_updates (new_events
     \<lparr>weights_file = None, store = \<lparr>u8_bufs = [], f64_bufs = []\<rparr>, trace = []\<rparr>
     (fst (download_weights
     \<lparr>md5_hexdigest = (\<lambda>c. []),
      weights_remote = Inr \<lparr>content_length = Some 8193, body = replicate 8193 0\<rparr>,
      labels_remote = Inl URLError, image_remote = (\<lambda>u. Inl URLError),
      yolo_v3 = (\<lambda>i c d. Inl URLError), ui_label = [], ui_range = (10, 20),
      ui_frame_index = 0, ui_run_yolo = False, ui_confidence = 1 / 2, ui_overlap = 3 / 10\<rparr>
     \<lparr>weights_file = None, store = \<lparr>u8_bufs = [], f64_bufs = []\<rparr>, trace = []\<rparr>)))) = 1"
proof -
  let ?env = "\<lparr>md5_hexdigest = (\<lambda>c. []),
      weights_remote = Inr \<lparr>content_length = Some 8193, body = replicate 8193 0\<rparr>,
      labels_remote = Inl URLError, image_remote = (\<lambda>u. Inl URLError),
      yolo_v3 = (\<lambda>i c d. Inl URLError), ui_label = [], ui_range = (10, 20),
      ui_frame_index = 0, ui_run_yolo = False, ui_confidence = 1 / 2, ui_overlap = 3 / 10\<rparr>"
  let ?w = "\<lparr>weights_file = None, store = \<lparr>u8_bufs = [], f64_bufs = []\<rparr>, trace = []\<rparr>"
  have 1: "\<not> snd (check_weights_hash ?env ?w)" by (simp add: check_weights_hash_def)
  have 2: "weights_remote ?env = Inr \<lparr>content_length = Some 8193, body = replicate 8193 0\<rparr>"
    by simp
  have 3: "content_length \<lparr>content_length = Some 8193, body = replicate 8193 (0 :: uint8)\<rparr>
           = Some (int 8193)"
    by simp
  have 4: "length (body \<lparr>content_length = Some 8193, body = replicate 8193 (0 :: uint8)\<rparr>) = 8193"
    by simp
  have 5: "(0::nat) < 8193" by simp
  have 6: "int 8193 < f64_overflow_threshold" by (simp add: f64_overflow_threshold_def)
  have n: "(8193 + 8191) div 8192 = (2::nat)" by simp
  note t = download_progress_updates [OF 1 2 3 4 5 6, unfolded n]
  have "(8193::nat) < 2 ^ 53" by simp
  with t have "progress_updates (new_events ?w (fst (download_weights ?env ?w))) ! 0
               = min 1 (f64_round (of_nat (min (8192 * (0 + 1)) 8193) / of_nat 8193))"
    by (metis zero_less_numeral)
  then have "progress_updates (new_events ?w (fst (download_weights ?env ?w))) ! 0
             = min 1 (f64_round (8192 / 8193))"
    by simp
  with t show ?thesis by blast
qed

text \<open>
  Claim C7 as first worded, for every known length \<open>N\<close>, fails where \<open>N\<close> is too large for
  a float: with \<open>N = 2 ^ 1024\<close> the first division raises OverflowError, and the progress bar
  is never updated, where \<open>\<lceil>N / 8192\<rceil>\<close> updates are claimed.
\<close>

theorem download_progress_updates_counterexample:
  "\<not> snd (check_weights_hash
     \<lparr>md5_hexdigest = (\<lambda>c. []),
      weights_remote = Inr \<lparr>content_length = Some (2 ^ 1024), body = replicate (2 ^ 1024) 0\<rparr>,
      labels_remote = Inl URLError, image_remote = (\<lambda>u. Inl URLError),
      yolo_v3 = (\<lambda>i c d. Inl URLError), ui_label = [], ui_range = (10, 20),
      ui_frame_index = 0, ui_run_yolo = False, ui_confidence = 1 / 2, ui_overlap = 3 / 10\<rparr>
     \<lparr>weights_file = None, store = \<lparr>u8_bufs = [], f64_bufs = []\<rparr>, trace = []\<rparr>)
   \<and> content_length \<lparr>content_length = Some (2 ^ 1024), body = replicate (2 ^ 1024) (0 :: uint8)\<rparr>
       = Some (int (2 ^ 1024))
   \<and> length (body \<lparr>content_length = Some (2 ^ 1024), body = replicate (2 ^ 1024) (0 :: uint8)\<rparr>)
       = 2 ^ 1024
   \<and> snd (download_weights
     \<lparr>md5_hexdigest = (\<lambda>c. []),
      weights_remote = Inr \<lparr>content_length = Some (2 ^ 1024), body = replicate (2 ^ 1024) 0\<rparr>,
      labels_remote = Inl URLError, image_remote = (\<lambda>u. Inl URLError),
      yolo_v3 = (\<lambda>i c d. Inl URLError), ui_label = [], ui_range = (10, 20),
      ui_frame_index = 0, ui_run_yolo = False, ui_confidence = 1 / 2, ui_overlap = 3 / 10\<rparr>
     \<lparr>weights_file = None, store = \<lparr>u8_bufs = [], f64_bufs = []\<rparr>, trace = []\<rparr>) = Inl OverflowError
   \<and> length (progress_updates (new_events
     \<lparr>weights_file = None, store = \<lparr>u8_bufs = [], f64_bufs = []\<rparr>, trace = []\<rparr>
     (fst (download_weights
     \<lparr>md5_hexdigest = (\<lambda>c. []),
      weights_remote = Inr \<lparr>content_length = Some (2 ^ 1024), body = replicate (2 ^ 1024) 0\<rparr>,
      labels_remote = Inl URLError, image_remote = (\<lambda>u. Inl URLError),
      yolo_v3 = (\<lambda>i c d. Inl URLError), ui_label = [], ui_range = (10, 20),
      ui_frame_index = 0, ui_run_yolo = False, ui_confidence = 1 / 2, ui_overlap = 3 / 10\<rparr>
     \<lparr>weights_file = None, store = \<lparr>u8_bufs = [], f64_bufs = []\<rparr>, trace = []\<rparr>)))) \<noteq> (2 ^ 1024 + 8191) div 8192"
proof -
  let ?env = "\<lparr>md5_hexdigest = (\<lambda>c. []),
      weights_remote = Inr \<lparr>content_length = Some (2 ^ 1024), body = replicate (2 ^ 1024) 0\<rparr>,
      labels_remote = Inl URLError, image_remote = (\<lambda>u. Inl URLError),
      yolo_v3 = (\<lambda>i c d. Inl URLError), ui_label = [], ui_range = (10, 20),
      ui_frame_index = 0, ui_run_yolo = False, ui_confidence = 1 / 2, ui_overlap = 3 / 10\<rparr>"
  let ?w = "\<lparr>weights_file = None, store = \<lparr>u8_bufs = [], f64_bufs = []\<rparr>, trace = []\<rparr>"
  let ?w4 = "\<lparr>weights_file = Some [], store = \<lparr>u8_bufs = [], f64_bufs = []\<rparr>,
              trace = [Spinner, ProgressBar, UrlOpen, Stdout]\<rparr>"
  have chk: "\<not> snd (check_weights_hash ?env ?w)" by (simp add: check_weights_hash_def)
  have dw: "download_weights ?env ?w
            = download_loop (2 ^ 1024) (replicate (2 ^ 1024) 0) 0 ?w4"
    by (simp add: download_weights_def check_weights_hash_def emit_def)
  have data: "take 8192 (replicate (2 ^ 1024) (0 :: uint8)) = replicate 8192 0"
    by (simp add: min_def)
  have ne: "replicate 8192 (0 :: uint8) \<noteq> []" by simp
  have small: "\<not> int_too_large (int (0 + length (replicate 8192 (0 :: uint8))))"
    by (simp add: int_too_large_def f64_overflow_threshold_def)
  have large: "int_too_large (2 ^ 1024)"
    by (simp add: int_too_large_def f64_overflow_threshold_def)
  have loop: "download_loop (2 ^ 1024) (replicate (2 ^ 1024) 0) 0 ?w4 = (?w4, Inl OverflowError)"
    using ne small large
    by (subst download_loop.simps) (simp only: Let_def data if_True if_False)
  have ups: "progress_updates (new_events ?w (fst (download_weights ?env ?w))) = []"
    unfolding dw loop by (simp add: new_events_def)
  have "(2 ^ 1024 + 8191) div 8192 \<noteq> (0::nat)" by simp
  then show ?thesis using chk ups unfolding dw loop by simp
qed

section \<open>Properties of \<^verbatim>\<open>main\<close>\<close>

text \<open>
  Claim C8. When the labels were read and \<^verbatim>\<open>get_selected_frames\<close> returns no frame,
  \<^verbatim>\<open>main\<close> returns normally, without an error raised; the last thing it does is to show
  the message that no frame fits; and no image is requested or shown, no detection is
  run, and no image buffer is made or changed.
\<close>

theorem empty_selection_halts:
  assumes "labels_remote env = Inr metadata"
    and "get_selected_frames (create_summary metadata) (ui_label env)
           (fst (ui_range env)) (snd (ui_range env)) = Inr []"
  shows "snd (main env w) = Inr ()
       \<and> new_events w (fst (main env w))
           = (if weights_file w = None then [] else [Stdout])
             @ [Stdout, ReadCsv, SidebarTitle, Selectbox, Slider, StError]
       \<and> \<not> list_ex per_frame_event (new_events w (fst (main env w)))
       \<and> store (fst (main env w)) = store w
       \<and> weights_file (fst (main env w)) = weights_file w"
proof -
  have m: "main env w =
             (w\<lparr>trace := trace w @ (if weights_file w = None then [] else [Stdout])
                     @ [Stdout, ReadCsv, SidebarTitle, Selectbox, Slider, StError]\<rparr>, Inr ())"
    using assms by (simp add: main_def Let_def check_weights_hash_world emit_def)
  have "new_events w (fst (main env w)) = (if weights_file w = None then [] else [Stdout])
             @ [Stdout, ReadCsv, SidebarTitle, Selectbox, Slider, StError]"
    by (rule new_events_append) (simp add: m)
  then show ?thesis by (simp add: m)
qed


theorem empty_selection_halts_witness:
  "main
     \<lparr>md5_hexdigest = (\<lambda>c. []), weights_remote = Inl URLError,
      labels_remote =
        Inr [\<lparr>xmin = 0, ymin = 0, xmax = 1, ymax = 1, label = ''car'', frame = ''f1''\<rparr>],
      image_remote = (\<lambda>u. Inl URLError), yolo_v3 = (\<lambda>i c d. Inl URLError),
      ui_label = ''label_car'', ui_range = (10, 20), ui_frame_index = 0, ui_run_yolo = False,
      ui_confidence = 1 / 2, ui_overlap = 3 / 10\<rparr>
     \<lparr>weights_file = None, store = \<lparr>u8_bufs = [], f64_bufs = []\<rparr>, trace = []\<rparr>
   = (\<lparr>weights_file = None, store = \<lparr>u8_bufs = [], f64_bufs = []\<rparr>,
        trace = [Stdout, ReadCsv, SidebarTitle, Selectbox, Slider, StError]\<rparr>, Inr ())"
proof -
  let ?env = "\<lparr>md5_hexdigest = (\<lambda>c. []), weights_remote = Inl URLError,
      labels_remote =
        Inr [\<lparr>xmin = 0, ymin = 0, xmax = 1, ymax = 1, label = ''car'', frame = ''f1''\<rparr>],
      image_remote = (\<lambda>u. Inl URLError), yolo_v3 = (\<lambda>i c d. Inl URLError),
      ui_label = ''label_car'', ui_range = (10, 20), ui_frame_index = 0, ui_run_yolo = False,
      ui_confidence = 1 / 2, ui_overlap = 3 / 10\<rparr>"
  let ?w = "\<lparr>weights_file = None, store = \<lparr>u8_bufs = [], f64_bufs = []\<rparr>, trace = []\<rparr>"
  let ?md = "[\<lparr>xmin = 0, ymin = 0, xmax = 1, ymax = 1, label = ''car'', frame = ''f1''\<rparr>]"
  have 1: "labels_remote ?env = Inr ?md" by simp
  have "get_selected_frames (create_summary ?md) ''label_car'' 10 20 = Inr []"
    by (simp add: get_selected_frames_def create_summary_def groupby_sum_def get_dummies_def
        getitem_column_def boolean_mask_def logical_and_def add_rows_def)
  then have 2: "get_selected_frames (create_summary ?md) (ui_label ?env)
                  (fst (ui_range ?env)) (snd (ui_range ?env)) = Inr []"
    by simp
  note t = empty_selection_halts [OF 1 2, of ?w]
  have "trace (fst (main ?env ?w)) = [Stdout, ReadCsv, SidebarTitle, Selectbox, Slider, StError]"
    using t by (simp add: new_events_def)
  moreover have "store (fst (main ?env ?w)) = \<lparr>u8_bufs = [], f64_bufs = []\<rparr>"
    and "weights_file (fst (main ?env ?w)) = None" and "snd (main ?env ?w) = Inr ()"
    using t by simp_all
  ultimately show ?thesis
    by (cases "main ?env ?w"; cases "fst (main ?env ?w)") simp
qed

end
